theory Spec2Isabelle
  imports Main
begin

section \<open>The embeddings generator: a model of \<open>src/main.ts\<close>\<close>

text \<open>
  \<open>main.ts\<close> walks a documentation tree, keeps one row of table \<open>page\<close> per source and
  one row of table \<open>page_section\<close> per embedded chunk, and asks the embedding provider for
  a vector only when a page is new, changed or forced.  The model below follows the file
  line by line.  Everything the code awaits is an action on a \<open>world\<close>: the two tables, the
  inputs sent to the provider, the console, and the failure signal of the action runner.
  A rejected promise is the left summand of the result.
\<close>

subsection \<open>Values thrown\<close>

text \<open>
  A thrown value; \<open>is_Error\<close> is the test \<open>error instanceof Error\<close> of line 157 and
  \<open>message\<close> the field \<open>error.message\<close>.
\<close>

datatype thrown = Thrown (is_Error: bool) (message: string)

subsection \<open>The two tables\<close>

text \<open>
  The columns are the ones the queries of \<open>main.ts\<close> name.  \<open>checksum\<close> and
  \<open>parent_page_id\<close> are written with NULL by the code, so they are options.  The vector
  of a section is opaque to this program: it is copied from the provider's answer.
\<close>

record page_row =
  p_id :: nat
  path :: string
  checksum :: "string option"
  ptype :: string
  source :: string
  meta :: string
  parent_page_id :: "nat option"
  version :: string
  last_refresh :: nat

record page_section_row =
  s_id :: nat
  page_id :: nat
  slug :: string
  heading :: string
  content :: string
  token_count :: nat
  embedding :: "int list"

text \<open>
  The store: both tables in insertion order and the two sequences that assign
  \<open>page.id\<close> and \<open>page_section.id\<close>.
\<close>

record store =
  page :: "page_row list"
  page_section :: "page_section_row list"
  page_id_seq :: nat
  page_section_id_seq :: nat

subsection \<open>Sources, the provider's answer, the console\<close>

record source_section =
  sec_slug :: string
  sec_heading :: string
  sec_content :: string

record loaded =
  ld_checksum :: string
  ld_meta :: string
  ld_sections :: "source_section list"

text \<open>
  An object of class \<open>MarkdownSource\<close> (module \<open>./sources/markdown\<close>): the four fields
  read at line 36 and the outcome of \<open>await embeddingSource.load()\<close> of line 39.
  \<open>parentPath\<close> may be undefined.
\<close>

record embedding_source =
  src_type :: string
  src_source :: string
  src_path :: string
  src_parentPath :: "string option"
  src_load :: "thrown + loaded"

text \<open>
  The answer of \<open>openai.createEmbedding\<close>: \<open>status\<close>, the vectors of \<open>data.data\<close>,
  \<open>data.usage.total_tokens\<close>, and the text \<open>inspect(data, false, 2)\<close> that line 110 puts
  into the error message.
\<close>

record embedding_response =
  status :: nat
  data_data :: "int list list"
  usage_total_tokens :: nat
  data_inspect :: string

text \<open>One constructor per \<open>console.log\<close> and \<open>console.error\<close> call of the file.\<close>

datatype console_line =
    Discovered nat
  | CheckingChanged
  | RefreshFlagSet
  | ParentChanged string "string option"
  | RemovingOldSections string bool
  | AddingSections string nat
  | FailedSection string string
  | FailedPage string
  | ErrorValue thrown
  | RemovingOldPages
  | Complete

subsection \<open>The world and the environment\<close>

text \<open>
  \<open>queries\<close> counts the calls of \<open>client.query\<close>, \<open>embedding_calls\<close> lists the inputs
  sent to the provider, \<open>failed\<close> is the message given to \<open>core.setFailed\<close>, and
  \<open>snapshots\<close> records the store after every query that succeeded, so that the states
  between two queries can be spoken about.
\<close>

record world =
  db :: store
  queries :: nat
  embedding_calls :: "string list"
  console :: "console_line list"
  failed :: "string option"
  snapshots :: "store list"

text \<open>
  What the program cannot decide: whether the connection opens and closes, the uuid and
  the date of the run, the tree walker and the source class (both in modules outside
  \<open>main.ts\<close>), the provider (its answer may depend on the key, on how many calls came
  before, and on the input), and which calls of \<open>client.query\<close> are rejected.
\<close>

record env =
  connect :: "string \<Rightarrow> thrown option"
  uuidv4 :: string
  now :: nat
  walk :: "string \<Rightarrow> thrown + string list"
  MarkdownSource :: "string \<Rightarrow> string \<Rightarrow> embedding_source"
  createEmbedding :: "string \<Rightarrow> nat \<Rightarrow> string \<Rightarrow> thrown + embedding_response"
  query_fails :: "nat \<Rightarrow> thrown option"
  end_fails :: "thrown option"

type_synonym 'a io = "world \<Rightarrow> (thrown + 'a) \<times> world"

definition return :: "'a \<Rightarrow> 'a io" where
  "return x w = (Inr x, w)"

definition throw :: "thrown \<Rightarrow> 'a io" where
  "throw e w = (Inl e, w)"

text \<open>\<open>await m f\<close> is \<open>const x = await m; f x\<close>: a rejection of \<open>m\<close> skips \<open>f\<close>.\<close>

definition await :: "'a io \<Rightarrow> ('a \<Rightarrow> 'b io) \<Rightarrow> 'b io" where
  "await m f w = (case m w of (Inl e, w') \<Rightarrow> (Inl e, w') | (Inr x, w') \<Rightarrow> f x w')"

text \<open>\<open>try_catch m h\<close> is \<open>try { m } catch (err) { h err }\<close>.\<close>

definition try_catch :: "'a io \<Rightarrow> (thrown \<Rightarrow> 'a io) \<Rightarrow> 'a io" where
  "try_catch m h w = (case m w of (Inl e, w') \<Rightarrow> h e w' | (Inr x, w') \<Rightarrow> (Inr x, w'))"

definition console_out :: "console_line \<Rightarrow> unit io" where
  "console_out l w = (Inr (), w\<lparr>console := console w @ [l]\<rparr>)"

subsection \<open>The queries\<close>

text \<open>
  \<open>client.query\<close>: the call is counted; the environment may reject it, and then the
  store is as before; otherwise the statement runs and the new store is recorded.
\<close>

definition client_query :: "env \<Rightarrow> (store \<Rightarrow> 'a \<times> store) \<Rightarrow> 'a io" where
  "client_query e sql w =
     (case query_fails e (queries w) of
        Some err \<Rightarrow> (Inl err, w\<lparr>queries := Suc (queries w)\<rparr>)
      | None \<Rightarrow>
          (case sql (db w) of (rows, d) \<Rightarrow>
             (Inr rows, w\<lparr>db := d, queries := Suc (queries w), snapshots := snapshots w @ [d]\<rparr>)))"

text \<open>
  \<open>SELECT ... FROM page WHERE path = $1 LIMIT 1\<close> (lines 42, 53, 78), then \<open>rows[0]\<close>.
  An undefined parameter is sent as NULL, and \<open>path = NULL\<close> selects no row.
\<close>

definition select_page_by_path :: "string option \<Rightarrow> store \<Rightarrow> page_row option \<times> store" where
  "select_page_by_path p d =
     ((case p of None \<Rightarrow> None | Some x \<Rightarrow> find (\<lambda>r. path r = x) (page d)), d)"

text \<open>\<open>SELECT id, path FROM page WHERE id = $1 LIMIT 1\<close> (line 46), then \<open>rows[0]\<close>.\<close>

definition select_page_by_id :: "nat option \<Rightarrow> store \<Rightarrow> page_row option \<times> store" where
  "select_page_by_id i d =
     ((case i of None \<Rightarrow> None | Some x \<Rightarrow> find (\<lambda>r. p_id r = x) (page d)), d)"

text \<open>\<open>UPDATE page SET parent_page_id = $1 WHERE id = $2\<close> (line 56).\<close>

definition update_parent_page_id :: "nat option \<Rightarrow> nat \<Rightarrow> store \<Rightarrow> unit \<times> store" where
  "update_parent_page_id v i d =
     ((), d\<lparr>page := map (\<lambda>r. if p_id r = i then r\<lparr>parent_page_id := v\<rparr> else r) (page d)\<rparr>)"

text \<open>
  \<open>UPDATE page SET type = $1, source = $2, meta = $3, version = $4, last_refresh = $5
  WHERE id = $6\<close> (line 60).
\<close>

definition update_page_meta ::
  "string \<Rightarrow> string \<Rightarrow> string \<Rightarrow> string \<Rightarrow> nat \<Rightarrow> nat \<Rightarrow> store \<Rightarrow> unit \<times> store" where
  "update_page_meta ty so me ve da i d =
     ((), d\<lparr>page := map (\<lambda>r. if p_id r = i
                 then r\<lparr>ptype := ty, source := so, meta := me, version := ve, last_refresh := da\<rparr>
                 else r) (page d)\<rparr>)"

text \<open>\<open>DELETE FROM page_section WHERE page_id = $1\<close> (line 75).\<close>

definition delete_page_sections :: "nat \<Rightarrow> store \<Rightarrow> unit \<times> store" where
  "delete_page_sections i d =
     ((), d\<lparr>page_section := filter (\<lambda>s. page_id s \<noteq> i) (page_section d)\<rparr>)"

text \<open>
  The upsert of lines 81 to 88.  The row proposed for insertion has checksum NULL; on a
  conflict on \<open>path\<close> the existing row takes the proposed values, \<open>EXCLUDED.checksum\<close>
  included, and keeps its id; \<open>RETURNING id\<close> gives the id of the row.
\<close>

definition upsert_page ::
  "string \<Rightarrow> string \<Rightarrow> string \<Rightarrow> string \<Rightarrow> nat option \<Rightarrow> string \<Rightarrow> nat \<Rightarrow> store \<Rightarrow> nat \<times> store" where
  "upsert_page pa ty so me par ve da d =
     (case find (\<lambda>r. path r = pa) (page d) of
        Some old \<Rightarrow>
          (p_id old,
           d\<lparr>page := map (\<lambda>r. if path r = pa
                 then r\<lparr>checksum := None, ptype := ty, source := so, meta := me,
                        parent_page_id := par, version := ve, last_refresh := da\<rparr>
                 else r) (page d)\<rparr>)
      | None \<Rightarrow>
          (page_id_seq d,
           d\<lparr>page := page d @
                 [\<lparr>p_id = page_id_seq d, path = pa, checksum = None, ptype = ty, source = so,
                   meta = me, parent_page_id = par, version = ve, last_refresh = da\<rparr>],
             page_id_seq := Suc (page_id_seq d)\<rparr>))"

text \<open>The insert of lines 115 to 121.\<close>

definition insert_page_section ::
  "nat \<Rightarrow> string \<Rightarrow> string \<Rightarrow> string \<Rightarrow> nat \<Rightarrow> int list \<Rightarrow> store \<Rightarrow> nat \<times> store" where
  "insert_page_section pid sl he co tc em d =
     (page_section_id_seq d,
      d\<lparr>page_section := page_section d @
            [\<lparr>s_id = page_section_id_seq d, page_id = pid, slug = sl, heading = he,
              content = co, token_count = tc, embedding = em\<rparr>],
        page_section_id_seq := Suc (page_section_id_seq d)\<rparr>)"

text \<open>\<open>UPDATE page SET checksum = $1 WHERE id = $2\<close> (line 128).\<close>

definition update_page_checksum :: "string \<Rightarrow> nat \<Rightarrow> store \<Rightarrow> unit \<times> store" where
  "update_page_checksum c i d =
     ((), d\<lparr>page := map (\<lambda>r. if p_id r = i then r\<lparr>checksum := Some c\<rparr> else r) (page d)\<rparr>)"

text \<open>
  \<open>DELETE FROM page WHERE version <> $1\<close> (line 139).  The sections of a deleted page go
  with it, as line 137 announces (``Removing old pages and their sections'').
\<close>

definition delete_stale_pages :: "string \<Rightarrow> store \<Rightarrow> unit \<times> store" where
  "delete_stale_pages ve d =
     ((), d\<lparr>page := filter (\<lambda>r. version r = ve) (page d),
            page_section := filter
              (\<lambda>s. page_id s \<notin> set (map p_id (filter (\<lambda>r. version r \<noteq> ve) (page d))))
              (page_section d)\<rparr>)"

subsection \<open>The collaborators\<close>

definition client_connect :: "env \<Rightarrow> string \<Rightarrow> unit io" where
  "client_connect e cs w = (case connect e cs of Some err \<Rightarrow> (Inl err, w) | None \<Rightarrow> (Inr (), w))"

definition client_end :: "env \<Rightarrow> unit io" where
  "client_end e w = (case end_fails e of Some err \<Rightarrow> (Inl err, w) | None \<Rightarrow> (Inr (), w))"

definition walk_tree :: "env \<Rightarrow> string \<Rightarrow> string list io" where
  "walk_tree e root w = (walk e root, w)"

definition source_load :: "embedding_source \<Rightarrow> loaded io" where
  "source_load src w = (src_load src, w)"

text \<open>
  \<open>openai.createEmbedding({model, input})\<close> of line 104: the input is sent, then the
  provider answers or the call is rejected.
\<close>

definition openai_createEmbedding :: "env \<Rightarrow> string \<Rightarrow> string \<Rightarrow> embedding_response io" where
  "openai_createEmbedding e key inp w =
     (createEmbedding e key (length (embedding_calls w)) inp,
      w\<lparr>embedding_calls := embedding_calls w @ [inp]\<rparr>)"

subsection \<open>Lines 21 to 25: which files are sources\<close>

definition ends_with :: "string \<Rightarrow> string \<Rightarrow> bool" where
  "ends_with suf s = (length suf \<le> length s \<and> drop (length s - length suf) s = suf)"

text \<open>The test \<open>/\.mdx?$/.test(path)\<close> of line 23.\<close>

definition is_markdown :: "string \<Rightarrow> bool" where
  "is_markdown p = (ends_with ''.md'' p \<or> ends_with ''.mdx'' p)"

definition ignoredFiles :: "string list" where
  "ignoredFiles = [''pages/404.mdx'']"

definition embeddingSources :: "env \<Rightarrow> string list \<Rightarrow> embedding_source list" where
  "embeddingSources e entries =
     map (\<lambda>p. MarkdownSource e ''markdown'' p)
       (filter (\<lambda>p. p \<notin> set ignoredFiles) (filter is_markdown entries))"

subsection \<open>Lines 95 to 126: one section after the other\<close>

text \<open>\<open>content.replace(/\n/g, " ")\<close> of line 96: every line feed becomes one space.\<close>

definition replace_newlines :: "string \<Rightarrow> string" where
  "replace_newlines s = map (\<lambda>c. if c = CHR 0x0A then CHR '' '' else c) s"

text \<open>
  The body of the inner \<open>try\<close> (lines 99 to 121).  With an empty \<open>data.data\<close> the
  destructuring of line 113 leaves \<open>responseData\<close> undefined and line 120 throws a
  TypeError before the insert is sent.  The row takes \<open>content\<close>, not \<open>input\<close>.
\<close>

definition embed_and_insert :: "env \<Rightarrow> string \<Rightarrow> nat \<Rightarrow> source_section \<Rightarrow> string \<Rightarrow> unit io" where
  "embed_and_insert e key pid sec inp =
     await (openai_createEmbedding e key inp) (\<lambda>embeddingResponse.
       if status embeddingResponse \<noteq> 200
       then throw (Thrown True (data_inspect embeddingResponse))
       else (case data_data embeddingResponse of
               [] \<Rightarrow> throw (Thrown True ''Cannot read properties of undefined (reading 'embedding')'')
             | responseData # _ \<Rightarrow>
                 await (client_query e
                          (insert_page_section pid (sec_slug sec) (sec_heading sec) (sec_content sec)
                             (usage_total_tokens embeddingResponse) responseData))
                   (\<lambda>_. return ())))"

text \<open>One turn of the loop of line 95, with the \<open>catch\<close> of lines 122 to 125.\<close>

definition embed_section :: "env \<Rightarrow> string \<Rightarrow> string \<Rightarrow> nat \<Rightarrow> source_section \<Rightarrow> unit io" where
  "embed_section e key pa pid sec =
     (let inp = replace_newlines (sec_content sec) in
      try_catch (embed_and_insert e key pid sec inp)
        (\<lambda>err. await (console_out (FailedSection pa (take 40 inp))) (\<lambda>_. throw err)))"

fun embed_sections :: "env \<Rightarrow> string \<Rightarrow> string \<Rightarrow> nat \<Rightarrow> source_section list \<Rightarrow> unit io" where
  "embed_sections e key pa pid [] = return ()"
| "embed_sections e key pa pid (sec # secs) =
     await (embed_section e key pa pid sec) (\<lambda>_. embed_sections e key pa pid secs)"

subsection \<open>Lines 45 to 70: the page is unchanged\<close>

definition refresh_metadata ::
  "env \<Rightarrow> string \<Rightarrow> nat \<Rightarrow> embedding_source \<Rightarrow> loaded \<Rightarrow> page_row \<Rightarrow> unit io" where
  "refresh_metadata e refreshVersion refreshDate src ld existingPage =
     await (client_query e (select_page_by_id (parent_page_id existingPage))) (\<lambda>existingParentPage.
     await (if map_option path existingParentPage \<noteq> src_parentPath src
            then await (console_out (ParentChanged (src_path src) (src_parentPath src))) (\<lambda>_.
                 await (client_query e (select_page_by_path (src_parentPath src))) (\<lambda>parentPage.
                 client_query e (update_parent_page_id (map_option p_id parentPage) (p_id existingPage))))
            else return ()) (\<lambda>_.
     client_query e (update_page_meta (src_type src) (src_source src) (ld_meta ld)
                       refreshVersion refreshDate (p_id existingPage))))"

subsection \<open>Lines 72 to 128: the page is new, changed or forced\<close>

text \<open>Lines 72 to 76.\<close>

definition purge_sections :: "env \<Rightarrow> bool \<Rightarrow> embedding_source \<Rightarrow> page_row option \<Rightarrow> unit io" where
  "purge_sections e shouldRefresh src existingPage =
     (case existingPage of
        None \<Rightarrow> return ()
      | Some ep \<Rightarrow>
          await (console_out (RemovingOldSections (src_path src) shouldRefresh)) (\<lambda>_.
          client_query e (delete_page_sections (p_id ep))))"

text \<open>Lines 81 to 128: the upsert, the sections, and the checksum at the end.\<close>

definition store_page ::
  "env \<Rightarrow> string \<Rightarrow> string \<Rightarrow> nat \<Rightarrow> embedding_source \<Rightarrow> loaded \<Rightarrow> page_row option \<Rightarrow> unit io" where
  "store_page e key refreshVersion refreshDate src ld parentPage =
     await (client_query e
              (upsert_page (src_path src) (src_type src) (src_source src) (ld_meta ld)
                 (map_option p_id parentPage) refreshVersion refreshDate)) (\<lambda>pid.
     await (console_out (AddingSections (src_path src) (length (ld_sections ld)))) (\<lambda>_.
     await (embed_sections e key (src_path src) pid (ld_sections ld)) (\<lambda>_.
     client_query e (update_page_checksum (ld_checksum ld) pid))))"

definition resync ::
  "env \<Rightarrow> string \<Rightarrow> bool \<Rightarrow> string \<Rightarrow> nat \<Rightarrow> embedding_source \<Rightarrow> loaded \<Rightarrow> page_row option \<Rightarrow> unit io" where
  "resync e key shouldRefresh refreshVersion refreshDate src ld existingPage =
     await (purge_sections e shouldRefresh src existingPage) (\<lambda>_.
     await (client_query e (select_page_by_path (src_parentPath src))) (\<lambda>parentPage.
     store_page e key refreshVersion refreshDate src ld parentPage))"

subsection \<open>Lines 35 to 135: the loop over the sources\<close>

text \<open>
  The test of line 45: \<open>existingPage?.checksum === checksum\<close> is false without a row and
  for a NULL checksum, since \<open>checksum\<close> is a string.
\<close>

definition unchanged :: "bool \<Rightarrow> page_row option \<Rightarrow> loaded \<Rightarrow> bool" where
  "unchanged shouldRefresh existingPage ld =
     (\<not> shouldRefresh \<and>
      (case existingPage of None \<Rightarrow> False | Some ep \<Rightarrow> checksum ep = Some (ld_checksum ld)))"

text \<open>The body of the \<open>try\<close> of line 38.\<close>

definition process_source_body ::
  "env \<Rightarrow> string \<Rightarrow> bool \<Rightarrow> string \<Rightarrow> nat \<Rightarrow> embedding_source \<Rightarrow> unit io" where
  "process_source_body e key shouldRefresh refreshVersion refreshDate src =
     await (source_load src) (\<lambda>ld.
     await (client_query e (select_page_by_path (Some (src_path src)))) (\<lambda>existingPage.
       (case existingPage of
          Some ep \<Rightarrow>
            if unchanged shouldRefresh existingPage ld
            then refresh_metadata e refreshVersion refreshDate src ld ep
            else resync e key shouldRefresh refreshVersion refreshDate src ld existingPage
        | None \<Rightarrow> resync e key shouldRefresh refreshVersion refreshDate src ld existingPage)))"

text \<open>One turn of the loop of line 35, with the \<open>catch\<close> of lines 129 to 134.\<close>

definition process_source ::
  "env \<Rightarrow> string \<Rightarrow> bool \<Rightarrow> string \<Rightarrow> nat \<Rightarrow> embedding_source \<Rightarrow> unit io" where
  "process_source e key shouldRefresh refreshVersion refreshDate src =
     try_catch (process_source_body e key shouldRefresh refreshVersion refreshDate src)
       (\<lambda>err. await (console_out (FailedPage (src_path src))) (\<lambda>_. console_out (ErrorValue err)))"

fun process_sources ::
  "env \<Rightarrow> string \<Rightarrow> bool \<Rightarrow> string \<Rightarrow> nat \<Rightarrow> embedding_source list \<Rightarrow> unit io" where
  "process_sources e key shouldRefresh refreshVersion refreshDate [] = return ()"
| "process_sources e key shouldRefresh refreshVersion refreshDate (src # srcs) =
     await (process_source e key shouldRefresh refreshVersion refreshDate src)
       (\<lambda>_. process_sources e key shouldRefresh refreshVersion refreshDate srcs)"

subsection \<open>Lines 14 to 144: \<open>generateEmbeddings\<close>\<close>

text \<open>The properties object of line 11; \<open>shouldRefresh\<close> is optional.\<close>

record GenerateEmbeddingsProps =
  shouldRefresh :: "bool option"
  postgresConnectionString :: string
  openaiKey :: string
  docsRootPath :: string

definition generateEmbeddings :: "env \<Rightarrow> GenerateEmbeddingsProps \<Rightarrow> unit io" where
  "generateEmbeddings e props =
     (let refresh = (case shouldRefresh props of None \<Rightarrow> False | Some b \<Rightarrow> b) in
      await (client_connect e (postgresConnectionString props)) (\<lambda>_.
      await (walk_tree e (docsRootPath props)) (\<lambda>entries.
      await (console_out (Discovered (length (embeddingSources e entries)))) (\<lambda>_.
      await (console_out (if \<not> refresh then CheckingChanged else RefreshFlagSet)) (\<lambda>_.
      await (process_sources e (openaiKey props) refresh (uuidv4 e) (now e)
               (embeddingSources e entries)) (\<lambda>_.
      await (console_out RemovingOldPages) (\<lambda>_.
      await (client_query e (delete_stale_pages (uuidv4 e))) (\<lambda>_.
      await (console_out Complete) (\<lambda>_.
      client_end e)))))))))"

subsection \<open>Lines 146 to 159: \<open>run\<close>\<close>

text \<open>
  \<open>getInput\<close> is \<open>core.getInput\<close>: the value of an input of the action, by name.  The
  promise of \<open>run\<close> never rejects, so \<open>run\<close> maps a world to a world.
\<close>

definition run :: "env \<Rightarrow> (string \<Rightarrow> string) \<Rightarrow> world \<Rightarrow> world" where
  "run e getInput w =
     (case generateEmbeddings e
             \<lparr>shouldRefresh = None,
              postgresConnectionString = getInput ''postgres-connection-string'',
              openaiKey = getInput ''openai-key'',
              docsRootPath = getInput ''docs-root-path''\<rparr> w of
        (Inl error, w') \<Rightarrow> if is_Error error then w'\<lparr>failed := Some (message error)\<rparr> else w'
      | (Inr _, w') \<Rightarrow> w')"

definition row_data :: "page_section_row \<Rightarrow> nat \<times> string \<times> string \<times> string" where
  "row_data r = (page_id r, slug r, heading r, content r)"

definition sec_data :: "nat \<Rightarrow> source_section \<Rightarrow> nat \<times> string \<times> string \<times> string" where
  "sec_data pid s = (pid, sec_slug s, sec_heading s, sec_content s)"

definition from_provider :: "env \<Rightarrow> string \<Rightarrow> page_section_row \<Rightarrow> bool" where
  "from_provider e key r =
     (\<exists>n resp. createEmbedding e key n (replace_newlines (content r)) = Inr resp
         \<and> status resp = 200 \<and> token_count r = usage_total_tokens resp
         \<and> data_data resp \<noteq> [] \<and> embedding r = hd (data_data resp))"

definition meta_only :: "nat \<Rightarrow> page_row \<Rightarrow> page_row \<Rightarrow> bool" where
  "meta_only i r r' =
     (p_id r' = p_id r \<and> path r' = path r \<and> checksum r' = checksum r \<and> (p_id r \<noteq> i \<longrightarrow> r' = r))"

definition provider_ok :: "env \<Rightarrow> string \<Rightarrow> string \<Rightarrow> bool" where
  "provider_ok e key inp =
     (\<forall>n. \<exists>resp. createEmbedding e key n inp = Inr resp \<and> status resp = 200 \<and> data_data resp \<noteq> [])"

definition provider_fails :: "env \<Rightarrow> string \<Rightarrow> string \<Rightarrow> bool" where
  "provider_fails e key inp =
     (\<forall>n. case createEmbedding e key n inp of Inl _ \<Rightarrow> True | Inr resp \<Rightarrow> status resp \<noteq> 200)"

definition no_store_failure :: "env \<Rightarrow> bool" where
  "no_store_failure e = (\<forall>n. query_fails e n = None)"

definition upserted :: "string \<Rightarrow> nat \<Rightarrow> embedding_source \<Rightarrow> loaded \<Rightarrow> page_row option \<Rightarrow> store \<Rightarrow> nat \<times> store" where
  "upserted ver dt src ld par d =
     upsert_page (src_path src) (src_type src) (src_source src) (ld_meta ld)
       (map_option p_id par) ver dt d"

definition page_at :: "store \<Rightarrow> string \<Rightarrow> page_row option" where
  "page_at d q = find (\<lambda>r. path r = q) (page d)"

definition purged :: "page_row option \<Rightarrow> store \<Rightarrow> store" where
  "purged existingPage d =
     (case existingPage of None \<Rightarrow> d | Some ep \<Rightarrow> snd (delete_page_sections (p_id ep) d))"

definition sections_of :: "store \<Rightarrow> nat \<Rightarrow> page_section_row list" where
  "sections_of d i = filter (\<lambda>s. page_id s = i) (page_section d)"

definition entry :: "store \<Rightarrow> string \<Rightarrow> page_row option \<times> page_section_row list" where
  "entry d q = (page_at d q, case page_at d q of None \<Rightarrow> [] | Some r \<Rightarrow> sections_of d (p_id r))"

definition consistent :: "store \<Rightarrow> bool" where
  "consistent d =
     (distinct (map path (page d)) \<and> distinct (map p_id (page d))
      \<and> (\<forall>r\<in>set (page d). p_id r < page_id_seq d)
      \<and> (\<forall>s\<in>set (page_section d). page_id s < page_id_seq d))"

definition keeps_key :: "nat \<Rightarrow> page_row \<Rightarrow> page_row \<Rightarrow> bool" where
  "keeps_key i r r' = (p_id r' = p_id r \<and> path r' = path r \<and> (p_id r \<noteq> i \<longrightarrow> r' = r))"

definition only_touches :: "string \<Rightarrow> store \<Rightarrow> store \<Rightarrow> bool" where
  "only_touches pa d d' = (consistent d' \<and> (\<forall>q. q \<noteq> pa \<longrightarrow> entry d' q = entry d q))"

definition outcome ::
  "env \<Rightarrow> string \<Rightarrow> bool \<Rightarrow> string \<Rightarrow> loaded
     \<Rightarrow> page_row option \<times> page_section_row list
     \<Rightarrow> page_row option \<times> page_section_row list \<Rightarrow> bool" where
  "outcome e key sr ver ld before after =
     (case fst after of
        None \<Rightarrow> False
      | Some r \<Rightarrow>
          version r = ver \<and>
          (if unchanged sr (fst before) ld
           then checksum r = Some (ld_checksum ld) \<and> snd after = snd before
           else map row_data (snd after) =
                  map (sec_data (p_id r)) (take (length (snd after)) (ld_sections ld))
              \<and> (\<forall>x\<in>set (snd after). from_provider e key x)
              \<and> (if length (snd after) = length (ld_sections ld)
                  then checksum r = Some (ld_checksum ld) else checksum r = None)
              \<and> ((\<forall>s\<in>set (ld_sections ld). provider_ok e key (replace_newlines (sec_content s)))
                    \<longrightarrow> length (snd after) = length (ld_sections ld))
              \<and> ((\<exists>s\<in>set (ld_sections ld). provider_fails e key (replace_newlines (sec_content s)))
                    \<longrightarrow> length (snd after) < length (ld_sections ld))))"




subsection \<open>A small documentation tree\<close>

text \<open>
  Two markdown sources, a text file and the ignored 404 page.  The first source has a
  line feed in its first section.
\<close>

definition src_guide :: embedding_source where
  "src_guide =
     \<lparr>src_type = ''markdown'', src_source = ''markdown'', src_path = ''guide.md'',
      src_parentPath = None,
      src_load = Inr \<lparr>ld_checksum = ''sum-guide'', ld_meta = ''{}'',
        ld_sections =
          [\<lparr>sec_slug = ''intro'', sec_heading = ''Intro'',
            sec_content = [CHR ''H'', CHR ''i'', CHR 0x0A, CHR ''y'', CHR ''o'', CHR ''u'']\<rparr>,
           \<lparr>sec_slug = ''usage'', sec_heading = ''Usage'', sec_content = ''Run it''\<rparr>]\<rparr>\<rparr>"

definition src_auth :: embedding_source where
  "src_auth =
     \<lparr>src_type = ''markdown'', src_source = ''markdown'', src_path = ''api/auth.mdx'',
      src_parentPath = Some ''api'',
      src_load = Inr \<lparr>ld_checksum = ''sum-auth'', ld_meta = ''{}'',
        ld_sections = [\<lparr>sec_slug = ''keys'', sec_heading = ''Keys'', sec_content = ''Use a key''\<rparr>]\<rparr>\<rparr>"

definition the_loaded :: "embedding_source \<Rightarrow> loaded" where
  "the_loaded src =
     (case src_load src of Inr ld \<Rightarrow> ld
      | Inl _ \<Rightarrow> \<lparr>ld_checksum = [], ld_meta = [], ld_sections = []\<rparr>)"

text \<open>An environment in which nothing fails.\<close>

definition env_ok :: env where
  "env_ok =
     \<lparr>connect = (\<lambda>_. None), uuidv4 = ''run-1'', now = 100,
      walk = (\<lambda>_. Inr [''guide.md'', ''notes.txt'', ''pages/404.mdx'', ''api/auth.mdx'']),
      MarkdownSource = (\<lambda>_ p. if p = ''guide.md'' then src_guide else src_auth),
      createEmbedding = (\<lambda>_ _ inp.
         Inr \<lparr>status = 200, data_data = [[int (length inp)]],
              usage_total_tokens = length inp, data_inspect = []\<rparr>),
      query_fails = (\<lambda>_. None), end_fails = None\<rparr>"

text \<open>The same tree with a provider that rejects the input \<open>Run it\<close>.\<close>

definition env_down :: env where
  "env_down =
     env_ok\<lparr>createEmbedding := (\<lambda>_ _ inp.
         if inp = ''Run it'' then Inl (Thrown True ''rate limit'')
         else Inr \<lparr>status = 200, data_data = [[int (length inp)]],
                   usage_total_tokens = length inp, data_inspect = []\<rparr>)\<rparr>"


text \<open>The run after \<open>run-1\<close>.\<close>

definition env_again :: env where
  "env_again = env_ok\<lparr>uuidv4 := ''run-2'', now := 200\<rparr>"

definition empty_store :: store where
  "empty_store = \<lparr>page = [], page_section = [], page_id_seq = 0, page_section_id_seq = 0\<rparr>"

definition world0 :: world where
  "world0 =
     \<lparr>db = empty_store, queries = 0, embedding_calls = [], console = [], failed = None,
      snapshots = []\<rparr>"

definition inputs0 :: "string \<Rightarrow> string" where
  "inputs0 name =
     (if name = ''postgres-connection-string'' then ''postgres://db''
      else if name = ''openai-key'' then ''sk''
      else if name = ''docs-root-path'' then ''docs''
      else [])"

text \<open>Storing \<open>guide.md\<close> into the empty store (lines 81 to 128).\<close>

definition guide_stored :: "(thrown + unit) \<times> world" where
  "guide_stored = store_page env_ok ''sk'' ''run-1'' 100 src_guide (the_loaded src_guide) None world0"

text \<open>Inputs of the action that also carry a refresh flag.\<close>

definition inputs_refresh :: "string \<Rightarrow> string" where
  "inputs_refresh name = (if name = ''should-refresh'' then ''true'' else inputs0 name)"

text \<open>The world after the first run over the tree, and the row of \<open>api/auth.mdx\<close> in it.\<close>

definition world1 :: world where
  "world1 = run env_ok inputs0 world0"

definition auth_row :: page_row where
  "auth_row =
     \<lparr>p_id = 1, path = ''api/auth.mdx'', checksum = Some ''sum-auth'', ptype = ''markdown'',
      source = ''markdown'', meta = ''{}'', parent_page_id = None, version = ''run-1'',
      last_refresh = 100\<rparr>"

text \<open>An environment whose store refuses the connection.\<close>

definition env_refused :: env where
  "env_refused = env_ok\<lparr>connect := (\<lambda>_. Some (Thrown True ''ECONNREFUSED''))\<rparr>"








lemmas io_defs = return_def throw_def await_def try_catch_def console_out_def client_query_def

lemma embed_section_step:
  assumes "embed_section e key pa pid sec w = (res, w')"
  shows "embedding_calls w' = embedding_calls w @ [replace_newlines (sec_content sec)]
       \<and> page (db w') = page (db w) \<and> page_id_seq (db w') = page_id_seq (db w)
       \<and> failed w' = failed w
       \<and> (case res of
            Inr _ \<Rightarrow> (\<exists>r. page_section (db w') = page_section (db w) @ [r]
                        \<and> row_data r = sec_data pid sec \<and> from_provider e key r)
                     \<and> snapshots w' = snapshots w @ [db w']
          | Inl _ \<Rightarrow> db w' = db w \<and> snapshots w' = snapshots w)"
  using assms
  unfolding embed_section_def embed_and_insert_def openai_createEmbedding_def
    insert_page_section_def io_defs Let_def row_data_def sec_data_def from_provider_def
  by (fastforce split: sum.splits if_splits list.splits option.splits prod.splits)

lemma embed_sections_effect:
  "embed_sections e key pa pid secs w = (res, w') \<Longrightarrow>
   \<exists>rows m snaps.
       page_section (db w') = page_section (db w) @ rows
     \<and> page (db w') = page (db w) \<and> page_id_seq (db w') = page_id_seq (db w)
     \<and> failed w' = failed w
     \<and> map row_data rows = map (sec_data pid) (take (length rows) secs)
     \<and> (\<forall>r\<in>set rows. from_provider e key r)
     \<and> embedding_calls w' =
         embedding_calls w @ map (\<lambda>s. replace_newlines (sec_content s)) (take m secs)
     \<and> (case res of Inr _ \<Rightarrow> length rows = length secs \<and> m = length secs
                   | Inl _ \<Rightarrow> length rows < length secs \<and> m = Suc (length rows))
     \<and> snapshots w' = snapshots w @ snaps \<and> (\<forall>d\<in>set snaps. page d = page (db w))
     \<and> db w' = last (db w # snaps)"
proof (induction secs arbitrary: w res w')
  case Nil
  then show ?case by (auto simp: return_def)
next
  case (Cons sec secs)
  obtain r1 w1 where s1: "embed_section e key pa pid sec w = (r1, w1)"
    by (cases "embed_section e key pa pid sec w")
  note st = embed_section_step [OF s1]
  show ?case
  proof (cases r1)
    case (Inl err)
    with Cons.prems s1 have "res = Inl err" "w' = w1" by (auto simp: await_def)
    with st Inl show ?thesis
      by (intro exI [of _ "[]"] exI [of _ "Suc 0"]) auto
  next
    case (Inr u)
    with Cons.prems s1 have rest: "embed_sections e key pa pid secs w1 = (res, w')"
      by (auto simp: await_def)
    from st Inr obtain r where r: "page_section (db w1) = page_section (db w) @ [r]"
      "row_data r = sec_data pid sec" "from_provider e key r"
      "snapshots w1 = snapshots w @ [db w1]" by auto
    from Cons.IH [OF rest] obtain rows m snaps where ih:
      "page_section (db w') = page_section (db w1) @ rows"
      "page (db w') = page (db w1)" "page_id_seq (db w') = page_id_seq (db w1)"
      "failed w' = failed w1"
      "map row_data rows = map (sec_data pid) (take (length rows) secs)"
      "\<forall>r\<in>set rows. from_provider e key r"
      "embedding_calls w' =
         embedding_calls w1 @ map (\<lambda>s. replace_newlines (sec_content s)) (take m secs)"
      "case res of Inr _ \<Rightarrow> length rows = length secs \<and> m = length secs
                   | Inl _ \<Rightarrow> length rows < length secs \<and> m = Suc (length rows)"
      "snapshots w' = snapshots w1 @ snaps" "\<forall>d\<in>set snaps. page d = page (db w1)"
      "db w' = last (db w1 # snaps)"
      by blast
    show ?thesis
      using st r ih
      by (intro exI [of _ "r # rows"] exI [of _ "Suc m"] exI [of _ "db w1 # snaps"])
         (auto split: sum.splits)
  qed
qed

lemmas sql_defs = select_page_by_path_def select_page_by_id_def update_parent_page_id_def
  update_page_meta_def delete_page_sections_def upsert_page_def insert_page_section_def
  update_page_checksum_def delete_stale_pages_def

lemma refresh_metadata_effect:
  assumes "refresh_metadata e ver dt src ld ep w = (res, w')"
  shows "list_all2 (meta_only (p_id ep)) (page (db w)) (page (db w'))
       \<and> page_section (db w') = page_section (db w)
       \<and> page_id_seq (db w') = page_id_seq (db w)
       \<and> embedding_calls w' = embedding_calls w \<and> failed w' = failed w"
  using assms
  unfolding refresh_metadata_def io_defs sql_defs
  by (auto simp: list_all2_map2 list_all2_same meta_only_def
      split: sum.splits if_splits option.splits prod.splits)

lemma client_query_ok:
  "no_store_failure e \<Longrightarrow>
   client_query e sql w =
     (Inr (fst (sql (db w))),
      w\<lparr>db := snd (sql (db w)), queries := Suc (queries w),
        snapshots := snapshots w @ [snd (sql (db w))]\<rparr>)"
  by (simp add: client_query_def no_store_failure_def split: prod.splits)

lemma client_query_None:
  "query_fails e (queries w) = None \<Longrightarrow>
   client_query e sql w =
     (Inr (fst (sql (db w))),
      w\<lparr>db := snd (sql (db w)), queries := Suc (queries w),
        snapshots := snapshots w @ [snd (sql (db w))]\<rparr>)"
  by (simp add: client_query_def split: prod.splits)

lemma client_query_Some:
  "query_fails e (queries w) = Some err \<Longrightarrow>
   client_query e sql w = (Inl err, w\<lparr>queries := Suc (queries w)\<rparr>)"
  by (simp add: client_query_def)

lemma embed_section_ok:
  assumes "no_store_failure e" "provider_ok e key (replace_newlines (sec_content sec))"
  shows "fst (embed_section e key pa pid sec w) = Inr ()"
proof -
  from assms(2) obtain resp where
    "createEmbedding e key (length (embedding_calls w)) (replace_newlines (sec_content sec)) = Inr resp"
    "status resp = 200" "data_data resp \<noteq> []"
    unfolding provider_ok_def by blast
  then show ?thesis
    using assms(1)
    by (simp add: embed_section_def embed_and_insert_def openai_createEmbedding_def
        client_query_ok await_def try_catch_def return_def Let_def split: list.splits)
qed

lemma embed_section_fails:
  assumes "provider_fails e key (replace_newlines (sec_content sec))"
  shows "\<exists>err. fst (embed_section e key pa pid sec w) = Inl err"
proof -
  from assms have
    "case createEmbedding e key (length (embedding_calls w)) (replace_newlines (sec_content sec)) of
       Inl _ \<Rightarrow> True | Inr resp \<Rightarrow> status resp \<noteq> 200"
    unfolding provider_fails_def by blast
  then show ?thesis
    by (auto simp: embed_section_def embed_and_insert_def openai_createEmbedding_def
        await_def try_catch_def throw_def console_out_def Let_def split: sum.splits)
qed

lemma embed_sections_ok:
  "no_store_failure e \<Longrightarrow>
   \<forall>s\<in>set secs. provider_ok e key (replace_newlines (sec_content s)) \<Longrightarrow>
   fst (embed_sections e key pa pid secs w) = Inr ()"
proof (induction secs arbitrary: w)
  case Nil
  then show ?case by (simp add: return_def)
next
  case (Cons sec secs)
  have "fst (embed_section e key pa pid sec w) = Inr ()"
    using Cons.prems by (simp add: embed_section_ok)
  then obtain w1 where "embed_section e key pa pid sec w = (Inr (), w1)"
    by (cases "embed_section e key pa pid sec w") auto
  then show ?case using Cons by (simp add: await_def)
qed

lemma embed_sections_fails:
  "\<exists>s\<in>set secs. provider_fails e key (replace_newlines (sec_content s)) \<Longrightarrow>
   \<exists>err. fst (embed_sections e key pa pid secs w) = Inl err"
proof (induction secs arbitrary: w)
  case Nil
  then show ?case by simp
next
  case (Cons sec secs)
  obtain r1 w1 where s1: "embed_section e key pa pid sec w = (r1, w1)"
    by (cases "embed_section e key pa pid sec w")
  show ?case
  proof (cases r1)
    case (Inl err)
    with s1 show ?thesis by (simp add: await_def)
  next
    case (Inr u)
    with s1 embed_section_fails [of e key sec pa pid w]
    have "\<not> provider_fails e key (replace_newlines (sec_content sec))" by auto
    with Cons.prems have "\<exists>s\<in>set secs. provider_fails e key (replace_newlines (sec_content s))"
      by auto
    from Cons.IH [OF this, of w1] s1 Inr show ?thesis by (simp add: await_def)
  qed
qed

lemma store_page_effect:
  assumes sp: "store_page e key ver dt src ld par w = (res, w')"
  defines "pid \<equiv> fst (upserted ver dt src ld par (db w))"
    and "d1 \<equiv> snd (upserted ver dt src ld par (db w))"
  shows "(query_fails e (queries w) \<noteq> None \<and> (\<exists>err. res = Inl err) \<and> db w' = db w
            \<and> snapshots w' = snapshots w \<and> embedding_calls w' = embedding_calls w
            \<and> failed w' = failed w)
       \<or> (query_fails e (queries w) = None \<and> failed w' = failed w \<and>
           (\<exists>rows m snaps.
               page_section (db w') = page_section (db w) @ rows
             \<and> map row_data rows = map (sec_data pid) (take (length rows) (ld_sections ld))
             \<and> (\<forall>r\<in>set rows. from_provider e key r)
             \<and> embedding_calls w' = embedding_calls w @
                  map (\<lambda>s. replace_newlines (sec_content s)) (take m (ld_sections ld))
             \<and> page_id_seq (db w') = page_id_seq d1
             \<and> snapshots w' = snapshots w @ d1 # snaps
             \<and> (case res of
                  Inr _ \<Rightarrow> length rows = length (ld_sections ld) \<and> m = length (ld_sections ld)
                     \<and> page (db w') = page (snd (update_page_checksum (ld_checksum ld) pid d1))
                     \<and> snaps \<noteq> [] \<and> last snaps = db w'
                     \<and> (\<forall>d\<in>set (butlast snaps). page d = page d1)
                | Inl _ \<Rightarrow> page (db w') = page d1 \<and> (\<forall>d\<in>set snaps. page d = page d1)
                     \<and> (no_store_failure e \<longrightarrow>
                          length rows < length (ld_sections ld) \<and> m = Suc (length rows)))))"
proof (cases "query_fails e (queries w)")
  case (Some err)
  with sp show ?thesis
    by (auto simp: store_page_def await_def client_query_Some)
next
  case None
  define w1 where "w1 = w\<lparr>db := d1, queries := Suc (queries w), snapshots := snapshots w @ [d1],
      console := console w @ [AddingSections (src_path src) (length (ld_sections ld))]\<rparr>"
  obtain r2 w2 where es: "embed_sections e key (src_path src) pid (ld_sections ld) w1 = (r2, w2)"
    by (cases "embed_sections e key (src_path src) pid (ld_sections ld) w1")
  from embed_sections_effect [OF es] obtain rows m snaps where eff:
    "page_section (db w2) = page_section (db w1) @ rows"
    "page (db w2) = page (db w1)" "page_id_seq (db w2) = page_id_seq (db w1)"
    "failed w2 = failed w1"
    "map row_data rows = map (sec_data pid) (take (length rows) (ld_sections ld))"
    "\<forall>r\<in>set rows. from_provider e key r"
    "embedding_calls w2 =
       embedding_calls w1 @ map (\<lambda>s. replace_newlines (sec_content s)) (take m (ld_sections ld))"
    "case r2 of Inr _ \<Rightarrow> length rows = length (ld_sections ld) \<and> m = length (ld_sections ld)
              | Inl _ \<Rightarrow> length rows < length (ld_sections ld) \<and> m = Suc (length rows)"
    "snapshots w2 = snapshots w1 @ snaps" "\<forall>d\<in>set snaps. page d = page (db w1)"
    "db w2 = last (db w1 # snaps)"
    by blast
  have d1_sections: "page_section d1 = page_section (db w)"
    by (simp add: d1_def upserted_def upsert_page_def split: option.splits)
  have run: "store_page e key ver dt src ld par w =
      (case r2 of Inl err \<Rightarrow> (Inl err, w2)
       | Inr _ \<Rightarrow> client_query e (update_page_checksum (ld_checksum ld) pid) w2)"
    using None es
    by (simp add: store_page_def await_def client_query_None console_out_def pid_def d1_def
        upserted_def w1_def split: sum.splits)
  show ?thesis
  proof (cases r2)
    case (Inl err)
    with run sp have "res = Inl err" "w' = w2" by auto
    with eff Inl None d1_sections show ?thesis
      by (intro disjI2 conjI exI [of _ rows] exI [of _ m] exI [of _ snaps])
         (auto simp: w1_def)
  next
    case (Inr u)
    show ?thesis
    proof (cases "query_fails e (queries w2)")
      case (Some err)
      with run sp Inr have "res = Inl err" "db w' = db w2" "snapshots w' = snapshots w2"
        "embedding_calls w' = embedding_calls w2" "failed w' = failed w2"
        by (auto simp: client_query_Some)
      with eff Inr None Some d1_sections show ?thesis
        by (intro disjI2 conjI exI [of _ rows] exI [of _ m] exI [of _ snaps])
           (auto simp: w1_def no_store_failure_def)
    next
      case qn: None
      with run sp Inr have fin: "res = Inr ()"
        "db w' = snd (update_page_checksum (ld_checksum ld) pid (db w2))"
        "snapshots w' = snapshots w2 @ [db w']"
        "embedding_calls w' = embedding_calls w2" "failed w' = failed w2"
        by (auto simp: client_query_None)
      with eff Inr None d1_sections show ?thesis
        by (intro disjI2 conjI exI [of _ rows] exI [of _ m] exI [of _ "snaps @ [db w']"])
           (auto simp: w1_def update_page_checksum_def)
    qed
  qed
qed

lemma find_map_same:
  "(\<And>x. P (f x) = P x) \<Longrightarrow> find P (map f xs) = map_option f (find P xs)"
  by (induction xs) auto

lemma find_snoc:
  "find P (xs @ [y]) = (case find P xs of None \<Rightarrow> (if P y then Some y else None) | Some x \<Rightarrow> Some x)"
  by (induction xs) auto

lemma page_at_upsert:
  "\<exists>r. page_at (snd (upsert_page pa ty so me par ve da d)) pa = Some r
      \<and> p_id r = fst (upsert_page pa ty so me par ve da d)
      \<and> checksum r = None \<and> version r = ve \<and> path r = pa"
proof (cases "find (\<lambda>r. path r = pa) (page d)")
  case None
  then show ?thesis
    by (simp add: upsert_page_def page_at_def find_snoc)
next
  case (Some old)
  then have "path old = pa" by (auto simp: find_Some_iff)
  with Some show ?thesis
    by (simp add: upsert_page_def page_at_def find_map_same)
qed

lemma page_at_update_page_checksum:
  "page_at d pa = Some r \<Longrightarrow>
   page_at (snd (update_page_checksum c i d)) pa =
     Some (if p_id r = i then r\<lparr>checksum := Some c\<rparr> else r)"
  by (simp add: update_page_checksum_def page_at_def find_map_same)

lemma page_at_cong: "page d = page d' \<Longrightarrow> page_at d q = page_at d' q"
  by (simp add: page_at_def)

lemma nth_butlast_or_last:
  assumes "j < length xs"
  shows "(Suc j = length xs \<and> xs ! j = last xs) \<or> (Suc j < length xs \<and> xs ! j \<in> set (butlast xs))"
proof (cases "Suc j = length xs")
  case True
  then have "xs \<noteq> []" "j = length xs - 1" by auto
  then show ?thesis using True by (simp add: last_conv_nth)
next
  case False
  with assms have l: "j < length (butlast xs)" by simp
  then have "butlast xs ! j \<in> set (butlast xs)" by (rule nth_mem)
  with l False assms show ?thesis by (simp add: nth_butlast)
qed

lemma map_row_data_fields:
  assumes "map row_data rows = map (sec_data pid) secs"
  shows "map content rows = map sec_content secs"
    and "map slug rows = map sec_slug secs"
    and "map heading rows = map sec_heading secs"
    and "\<forall>r\<in>set rows. page_id r = pid"
proof -
  from assms have len: "length rows = length secs" by (rule map_eq_imp_length_eq)
  have nth: "row_data (rows ! i) = sec_data pid (secs ! i)" if "i < length rows" for i
    using that assms len by (metis nth_map)
  show "map content rows = map sec_content secs"
    using len nth by (auto simp: list_eq_iff_nth_eq row_data_def sec_data_def)
  show "map slug rows = map sec_slug secs"
    using len nth by (auto simp: list_eq_iff_nth_eq row_data_def sec_data_def)
  show "map heading rows = map sec_heading secs"
    using len nth by (auto simp: list_eq_iff_nth_eq row_data_def sec_data_def)
  show "\<forall>r\<in>set rows. page_id r = pid"
    using nth by (auto simp: in_set_conv_nth row_data_def sec_data_def)
qed

lemma process_source_never_throws:
  "fst (process_source e key sr ver dt src w) = Inr ()"
  by (simp add: process_source_def try_catch_def await_def console_out_def
      split: prod.splits sum.splits)

lemma process_source_caught:
  "process_source_body e key sr ver dt src w = (Inl err, w1) \<Longrightarrow>
   process_source e key sr ver dt src w =
     (Inr (), w1\<lparr>console := console w1 @ [FailedPage (src_path src), ErrorValue err]\<rparr>)"
  by (simp add: process_source_def try_catch_def await_def console_out_def)

lemma process_source_passed:
  "process_source_body e key sr ver dt src w = (Inr u, w1) \<Longrightarrow>
   process_source e key sr ver dt src w = (Inr (), w1)"
  by (simp add: process_source_def try_catch_def)

lemma process_source_world:
  "process_source_body e key sr ver dt src w = (res, w1) \<Longrightarrow>
   db (snd (process_source e key sr ver dt src w)) = db w1
   \<and> embedding_calls (snd (process_source e key sr ver dt src w)) = embedding_calls w1
   \<and> failed (snd (process_source e key sr ver dt src w)) = failed w1
   \<and> snapshots (snd (process_source e key sr ver dt src w)) = snapshots w1
   \<and> queries (snd (process_source e key sr ver dt src w)) = queries w1"
  by (cases res) (simp_all add: process_source_caught process_source_passed)

lemma body_load_fails:
  "src_load src = Inl err \<Longrightarrow> process_source_body e key sr ver dt src w = (Inl err, w)"
  by (simp add: process_source_body_def await_def source_load_def)

lemma body_select_fails:
  "src_load src = Inr ld \<Longrightarrow> query_fails e (queries w) = Some err \<Longrightarrow>
   process_source_body e key sr ver dt src w = (Inl err, w\<lparr>queries := Suc (queries w)\<rparr>)"
  by (simp add: process_source_body_def await_def source_load_def client_query_Some)

lemma body_dispatch:
  "src_load src = Inr ld \<Longrightarrow> query_fails e (queries w) = None \<Longrightarrow>
   process_source_body e key sr ver dt src w =
     (case page_at (db w) (src_path src) of
        Some ep \<Rightarrow>
          if unchanged sr (Some ep) ld
          then refresh_metadata e ver dt src ld ep
                 (w\<lparr>queries := Suc (queries w), snapshots := snapshots w @ [db w]\<rparr>)
          else resync e key sr ver dt src ld (Some ep)
                 (w\<lparr>queries := Suc (queries w), snapshots := snapshots w @ [db w]\<rparr>)
      | None \<Rightarrow> resync e key sr ver dt src ld None
                 (w\<lparr>queries := Suc (queries w), snapshots := snapshots w @ [db w]\<rparr>))"
  by (simp add: process_source_body_def await_def source_load_def client_query_None
      select_page_by_path_def page_at_def split: option.splits)

lemma resync_cases:
  assumes "resync e key sr ver dt src ld existingPage w = (res, w')"
  shows "((\<exists>err. res = Inl err) \<and> page (db w') = page (db w)
            \<and> page_id_seq (db w') = page_id_seq (db w)
            \<and> failed w' = failed w \<and> embedding_calls w' = embedding_calls w
            \<and> (db w' = db w \<or> db w' = purged existingPage (db w)))
       \<or> (\<exists>w1. store_page e key ver dt src ld
                  (fst (select_page_by_path (src_parentPath src) (db w))) w1 = (res, w')
            \<and> db w1 = purged existingPage (db w)
            \<and> failed w1 = failed w \<and> embedding_calls w1 = embedding_calls w)"
  using assms
  unfolding resync_def purge_sections_def purged_def io_defs
    select_page_by_path_def delete_page_sections_def
  by (auto split: option.splits sum.splits prod.splits if_splits)

lemma map_path_same:
  "(\<And>r. path (f r) = path r) \<Longrightarrow> map path (map f xs) = map path xs"
  by (induction xs) auto

lemma paths_upsert_page:
  "\<exists>extra. map path (page (snd (upsert_page pa ty so me par ve da d))) = map path (page d) @ extra"
proof (cases "find (\<lambda>r. path r = pa) (page d)")
  case None
  then show ?thesis by (simp add: upsert_page_def)
next
  case (Some old)
  then show ?thesis
    by (intro exI [of _ "[]"]) (simp add: upsert_page_def map_path_same)
qed

lemma paths_update_page_checksum:
  "map path (page (snd (update_page_checksum c i d))) = map path (page d)"
  by (simp add: update_page_checksum_def map_path_same)

lemma page_purged: "page (purged existingPage d) = page d"
  by (simp add: purged_def delete_page_sections_def split: option.splits)

lemma paths_meta_only:
  "list_all2 (meta_only i) xs ys \<Longrightarrow> map path ys = map path xs"
  by (induction rule: list_all2_induct) (auto simp: meta_only_def)

lemma store_page_keeps:
  assumes "store_page e key ver dt src ld par w = (res, w')"
  shows "failed w' = failed w
       \<and> (\<exists>extra. map path (page (db w')) = map path (page (db w)) @ extra)"
proof -
  obtain extra where ex: "map path (page (snd (upserted ver dt src ld par (db w))))
      = map path (page (db w)) @ extra"
    unfolding upserted_def using paths_upsert_page by blast
  from store_page_effect [OF assms] show ?thesis
  proof (elim disjE conjE exE)
    assume "db w' = db w" "failed w' = failed w"
    then show ?thesis by simp
  next
    fix rows m snaps
    assume f: "failed w' = failed w"
      and c: "case res of
          Inr _ \<Rightarrow> length rows = length (ld_sections ld) \<and> m = length (ld_sections ld)
             \<and> page (db w') = page (snd (update_page_checksum (ld_checksum ld)
                    (fst (upserted ver dt src ld par (db w)))
                    (snd (upserted ver dt src ld par (db w)))))
             \<and> snaps \<noteq> [] \<and> last snaps = db w'
             \<and> (\<forall>d\<in>set (butlast snaps). page d = page (snd (upserted ver dt src ld par (db w))))
        | Inl _ \<Rightarrow> page (db w') = page (snd (upserted ver dt src ld par (db w)))
             \<and> (\<forall>d\<in>set snaps. page d = page (snd (upserted ver dt src ld par (db w))))
             \<and> (no_store_failure e \<longrightarrow>
                  length rows < length (ld_sections ld) \<and> m = Suc (length rows))"
    from c ex have "map path (page (db w')) = map path (page (db w)) @ extra"
      by (cases res) (simp_all add: paths_update_page_checksum)
    with f show ?thesis by blast
  qed
qed

lemma resync_keeps:
  assumes "resync e key sr ver dt src ld existingPage w = (res, w')"
  shows "failed w' = failed w
       \<and> (\<exists>extra. map path (page (db w')) = map path (page (db w)) @ extra)"
  using resync_cases [OF assms]
proof (elim disjE conjE exE)
  fix w1
  assume sp: "store_page e key ver dt src ld
      (fst (select_page_by_path (src_parentPath src) (db w))) w1 = (res, w')"
    and w1: "db w1 = purged existingPage (db w)" "failed w1 = failed w"
  from store_page_keeps [OF sp] w1 show ?thesis by (simp add: page_purged)
qed (auto intro: exI [of _ "[]"])

lemma process_source_body_keeps:
  assumes "process_source_body e key sr ver dt src w = (res, w')"
  shows "failed w' = failed w
       \<and> (\<exists>extra. map path (page (db w')) = map path (page (db w)) @ extra)"
proof (cases "src_load src")
  case (Inl err)
  with assms show ?thesis by (simp add: body_load_fails)
next
  case (Inr ld)
  show ?thesis
  proof (cases "query_fails e (queries w)")
    case (Some err)
    with assms Inr show ?thesis by (auto simp: body_select_fails)
  next
    case None
    let ?w1 = "w\<lparr>queries := Suc (queries w), snapshots := snapshots w @ [db w]\<rparr>"
    from assms body_dispatch [OF Inr None, of key sr ver dt]
    consider (meta) ep where "refresh_metadata e ver dt src ld ep ?w1 = (res, w')"
      | (sync) ex where "resync e key sr ver dt src ld ex ?w1 = (res, w')"
      by (auto split: option.splits if_splits)
    then show ?thesis
    proof cases
      case meta
      from refresh_metadata_effect [OF meta] show ?thesis
        by (auto dest: paths_meta_only)
    next
      case sync
      from resync_keeps [OF sync] show ?thesis by simp
    qed
  qed
qed

lemma process_source_keeps:
  "failed (snd (process_source e key sr ver dt src w)) = failed w
   \<and> (\<exists>extra. map path (page (db (snd (process_source e key sr ver dt src w))))
         = map path (page (db w)) @ extra)"
proof -
  obtain res w1 where b: "process_source_body e key sr ver dt src w = (res, w1)"
    by (cases "process_source_body e key sr ver dt src w")
  from process_source_world [OF b] process_source_body_keeps [OF b] show ?thesis by simp
qed

lemma process_sources_step:
  "process_sources e key sr ver dt (src # srcs) w =
     process_sources e key sr ver dt srcs (snd (process_source e key sr ver dt src w))"
  using process_source_never_throws [of e key sr ver dt src w]
  by (cases "process_source e key sr ver dt src w") (simp add: await_def)

lemma process_sources_keeps:
  "fst (process_sources e key sr ver dt srcs w) = Inr ()
   \<and> failed (snd (process_sources e key sr ver dt srcs w)) = failed w"
proof (induction srcs arbitrary: w)
  case Nil
  show ?case by (simp add: return_def)
next
  case (Cons src srcs)
  show ?case
    unfolding process_sources_step using Cons.IH process_source_keeps by simp
qed

lemma refresh_metadata_ok:
  assumes "no_store_failure e"
    and "map_option path (fst (select_page_by_id (parent_page_id ep) (db w))) \<noteq> src_parentPath src"
    and "page_at (db w) pa = Some ep"
  shows "page_at (db (snd (refresh_metadata e ver dt src ld ep w))) pa =
     Some (ep\<lparr>parent_page_id :=
                 map_option p_id (fst (select_page_by_path (src_parentPath src) (db w))),
               ptype := src_type src, source := src_source src, meta := ld_meta ld,
               version := ver, last_refresh := dt\<rparr>)"
  using assms
  by (simp add: refresh_metadata_def await_def console_out_def client_query_ok
      select_page_by_id_def select_page_by_path_def update_parent_page_id_def
      update_page_meta_def page_at_def find_map_same cong: option.case_cong)

lemma process_sources_result:
  "process_sources e key sr ver dt srcs w = (res, w') \<Longrightarrow> res = Inr () \<and> failed w' = failed w"
  using process_sources_keeps [of e key sr ver dt srcs w] by simp

lemma generateEmbeddings_cases:
  assumes "generateEmbeddings e props w = (res, w')"
  shows "failed w' = failed w
     \<and> (case res of
          Inr _ \<Rightarrow> True
        | Inl err \<Rightarrow>
            connect e (postgresConnectionString props) = Some err
          \<or> walk e (docsRootPath props) = Inl err
          \<or> (query_fails e (queries w' - 1) = Some err \<and> console w' \<noteq> []
               \<and> last (console w') = RemovingOldPages)
          \<or> end_fails e = Some err)"
  using assms
  unfolding generateEmbeddings_def Let_def await_def client_connect_def walk_tree_def
    console_out_def client_end_def client_query_def delete_stale_pages_def
  by (auto split: option.splits sum.splits prod.splits dest!: process_sources_result)

lemma store_page_ok:
  assumes "no_store_failure e"
    and "\<forall>s\<in>set (ld_sections ld). provider_ok e key (replace_newlines (sec_content s))"
  shows "fst (store_page e key ver dt src ld par w) = Inr ()"
proof -
  let ?pid = "fst (upserted ver dt src ld par (db w))"
  let ?w1 = "w\<lparr>db := snd (upserted ver dt src ld par (db w)), queries := Suc (queries w),
      snapshots := snapshots w @ [snd (upserted ver dt src ld par (db w))],
      console := console w @ [AddingSections (src_path src) (length (ld_sections ld))]\<rparr>"
  obtain r2 w2 where es: "embed_sections e key (src_path src) ?pid (ld_sections ld) ?w1 = (r2, w2)"
    by (cases "embed_sections e key (src_path src) ?pid (ld_sections ld) ?w1")
  with embed_sections_ok [OF assms, of "src_path src" ?pid ?w1] have "r2 = Inr ()" by simp
  with es show ?thesis
    using assms(1)
    by (simp add: store_page_def await_def client_query_ok console_out_def upserted_def)
qed

lemma resync_ok:
  assumes "no_store_failure e"
    and "\<forall>s\<in>set (ld_sections ld). provider_ok e key (replace_newlines (sec_content s))"
  shows "fst (resync e key sr ver dt src ld existingPage w) = Inr ()"
  using assms(1) store_page_ok [OF assms]
  by (simp add: resync_def purge_sections_def await_def client_query_ok console_out_def return_def
      split: option.splits prod.splits sum.splits)

lemma resync_done:
  assumes rs: "resync e key sr ver dt src ld existingPage w = (Inr u, w')"
  shows "\<exists>rows r. page_section (db w') = page_section (purged existingPage (db w)) @ rows
      \<and> map row_data rows = map (sec_data (p_id r)) (ld_sections ld)
      \<and> (\<forall>x\<in>set rows. from_provider e key x)
      \<and> embedding_calls w' =
          embedding_calls w @ map (\<lambda>s. replace_newlines (sec_content s)) (ld_sections ld)
      \<and> page_at (db w') (src_path src) = Some r
      \<and> checksum r = Some (ld_checksum ld) \<and> version r = ver
      \<and> p_id r = fst (upserted ver dt src ld
                        (fst (select_page_by_path (src_parentPath src) (db w)))
                        (purged existingPage (db w)))"
proof -
  let ?par = "fst (select_page_by_path (src_parentPath src) (db w))"
  from resync_cases [OF rs] obtain w1 where sp: "store_page e key ver dt src ld ?par w1 = (Inr u, w')"
    and w1: "db w1 = purged existingPage (db w)" "embedding_calls w1 = embedding_calls w"
    by auto
  let ?pid = "fst (upserted ver dt src ld ?par (db w1))"
  let ?d1 = "snd (upserted ver dt src ld ?par (db w1))"
  from page_at_upsert obtain r1 where r1:
    "page_at ?d1 (src_path src) = Some r1" "p_id r1 = ?pid" "version r1 = ver"
    unfolding upserted_def by blast
  from store_page_effect [OF sp] obtain rows where eff:
    "page_section (db w') = page_section (db w1) @ rows"
    "map row_data rows = map (sec_data ?pid) (take (length rows) (ld_sections ld))"
    "\<forall>r\<in>set rows. from_provider e key r"
    "embedding_calls w' = embedding_calls w1 @
        map (\<lambda>s. replace_newlines (sec_content s)) (ld_sections ld)"
    "length rows = length (ld_sections ld)"
    "page (db w') = page (snd (update_page_checksum (ld_checksum ld) ?pid ?d1))"
    by auto
  have "page_at (db w') (src_path src) = Some (r1\<lparr>checksum := Some (ld_checksum ld)\<rparr>)"
    using page_at_cong [OF eff(6)] page_at_update_page_checksum [OF r1(1)] r1(2) by simp
  with eff r1 w1 show ?thesis
    by (intro exI [of _ rows] exI [of _ "r1\<lparr>checksum := Some (ld_checksum ld)\<rparr>"]) simp
qed

lemma unchanged_Some:
  "unchanged sr ex ld \<Longrightarrow> \<exists>ep. ex = Some ep \<and> checksum ep = Some (ld_checksum ld) \<and> \<not> sr"
  by (auto simp: unchanged_def split: option.splits)

lemma env_ok_no_store_failure: "no_store_failure env_ok"
  by (simp add: no_store_failure_def env_ok_def)

lemma env_ok_provider_ok: "provider_ok env_ok key inp"
  by (simp add: provider_ok_def env_ok_def)

lemma page_at_SomeD: "page_at d q = Some r \<Longrightarrow> r \<in> set (page d) \<and> path r = q"
  by (auto simp: page_at_def find_Some_iff)

lemma page_at_None_iff: "page_at d q = None \<longleftrightarrow> q \<notin> path ` set (page d)"
  by (auto simp: page_at_def find_None_iff)

lemma find_distinct_member:
  "distinct (map f xs) \<Longrightarrow> x \<in> set xs \<Longrightarrow> find (\<lambda>r. f r = f x) xs = Some x"
  by (induction xs) (auto simp: image_iff)

lemma page_at_member:
  "distinct (map path (page d)) \<Longrightarrow> r \<in> set (page d) \<Longrightarrow> page_at d (path r) = Some r"
  unfolding page_at_def by (rule find_distinct_member)

lemma entry_cong:
  "page d' = page d \<Longrightarrow> page_section d' = page_section d \<Longrightarrow> entry d' q = entry d q"
  by (simp add: entry_def page_at_def sections_of_def cong: option.case_cong)

lemma other_path_other_id:
  assumes "consistent d" "page_at d pa = Some ep" "page_at d q = Some r" "q \<noteq> pa"
  shows "p_id r \<noteq> p_id ep"
proof -
  from assms(2,3) have m: "ep \<in> set (page d)" "r \<in> set (page d)" "path ep = pa" "path r = q"
    by (auto dest: page_at_SomeD)
  with assms(4) have "r \<noteq> ep" by auto
  moreover from assms(1) have "inj_on p_id (set (page d))"
    by (simp add: consistent_def distinct_map)
  ultimately show ?thesis using m by (auto dest: inj_onD)
qed

lemma keeps_key_lists:
  "list_all2 (keeps_key i) xs ys \<Longrightarrow> map path ys = map path xs \<and> map p_id ys = map p_id xs"
  by (induction rule: list_all2_induct) (auto simp: keeps_key_def)

lemma keeps_key_find:
  "list_all2 (keeps_key i) xs ys \<Longrightarrow> \<forall>r\<in>set xs. path r = q \<longrightarrow> p_id r \<noteq> i \<Longrightarrow>
   find (\<lambda>r. path r = q) ys = find (\<lambda>r. path r = q) xs"
  by (induction rule: list_all2_induct) (auto simp: keeps_key_def)

lemma keeps_key_find_at:
  "list_all2 (keeps_key i) xs ys \<Longrightarrow> find (\<lambda>r. path r = q) xs = Some r \<Longrightarrow>
   \<exists>r'. find (\<lambda>r. path r = q) ys = Some r' \<and> keeps_key i r r'"
  by (induction rule: list_all2_induct) (auto simp: keeps_key_def)

lemma meta_only_keeps_key:
  "list_all2 (meta_only i) xs ys \<Longrightarrow> list_all2 (keeps_key i) xs ys"
  by (erule list_all2_mono) (simp add: meta_only_def keeps_key_def)

lemma only_touches_same:
  assumes "consistent d" "page d' = page d" "page_section d' = page_section d"
    "page_id_seq d' = page_id_seq d"
  shows "only_touches pa d d'"
  using assms entry_cong [of d' d] by (simp add: only_touches_def consistent_def)

lemma only_touches_trans:
  "only_touches pa d d' \<Longrightarrow> only_touches pa d' d'' \<Longrightarrow> only_touches pa d d''"
  by (simp add: only_touches_def)

lemma only_touches_by_id:
  assumes c: "consistent d" and at: "page_at d pa = Some ep"
    and rel: "list_all2 (keeps_key (p_id ep)) (page d) (page d')"
    and same: "page_section d' = page_section d" "page_id_seq d' = page_id_seq d"
  shows "only_touches pa d d'"
proof -
  from keeps_key_lists [OF rel] have l: "map path (page d') = map path (page d)"
    "map p_id (page d') = map p_id (page d)" by simp_all
  have bound: "p_id r < page_id_seq d'" if "r \<in> set (page d')" for r
  proof -
    from that have "p_id r \<in> set (map p_id (page d'))" by simp
    then have "p_id r \<in> set (map p_id (page d))" by (simp only: l)
    then show ?thesis using c same by (auto simp: consistent_def)
  qed
  have "consistent d'"
    unfolding consistent_def
  proof (intro conjI ballI)
    show "distinct (map path (page d'))" using c l by (simp add: consistent_def)
    show "distinct (map p_id (page d'))" using c l by (simp add: consistent_def)
    show "p_id r < page_id_seq d'" if "r \<in> set (page d')" for r using bound that .
    show "page_id s < page_id_seq d'" if "s \<in> set (page_section d')" for s
      using that c same by (simp add: consistent_def)
  qed
  moreover have "entry d' q = entry d q" if q: "q \<noteq> pa" for q
  proof -
    have "\<forall>r\<in>set (page d). path r = q \<longrightarrow> p_id r \<noteq> p_id ep"
    proof (intro ballI impI)
      fix r assume r: "r \<in> set (page d)" "path r = q"
      with c page_at_member [of d r] have "page_at d q = Some r" by (simp add: consistent_def)
      from other_path_other_id [OF c at this q] show "p_id r \<noteq> p_id ep" .
    qed
    from keeps_key_find [OF rel this] have "page_at d' q = page_at d q"
      by (simp add: page_at_def)
    then show ?thesis using same
      by (simp add: entry_def sections_of_def cong: option.case_cong)
  qed
  ultimately show ?thesis by (simp add: only_touches_def)
qed

lemma only_touches_purged:
  assumes c: "consistent d"
  shows "only_touches pa d (purged (page_at d pa) d)"
proof (cases "page_at d pa")
  case None
  with c show ?thesis by (simp add: purged_def only_touches_same)
next
  case (Some ep)
  let ?d' = "purged (page_at d pa) d"
  have pg: "page ?d' = page d" "page_id_seq ?d' = page_id_seq d"
    and ps: "page_section ?d' = filter (\<lambda>s. page_id s \<noteq> p_id ep) (page_section d)"
    using Some by (simp_all add: purged_def delete_page_sections_def)
  have "consistent ?d'" using c pg ps by (simp add: consistent_def)
  moreover have "entry ?d' q = entry d q" if q: "q \<noteq> pa" for q
  proof (cases "page_at d q")
    case None
    with pg show ?thesis by (simp add: entry_def page_at_def)
  next
    case r: (Some r)
    from other_path_other_id [OF c Some r q] have "p_id r \<noteq> p_id ep" .
    then have "sections_of ?d' (p_id r) = sections_of d (p_id r)"
      unfolding sections_of_def ps by (auto intro: filter_cong)
    with r pg show ?thesis by (simp add: entry_def page_at_def)
  qed
  ultimately show ?thesis by (simp add: only_touches_def)
qed

lemma find_other_append:
  "\<not> P y \<Longrightarrow> find P (xs @ [y]) = find P xs"
  by (induction xs) auto

lemma only_touches_upsert:
  assumes c: "consistent d"
  shows "only_touches pa d (snd (upsert_page pa ty so me par ve da d))"
proof (cases "find (\<lambda>r. path r = pa) (page d)")
  case None
  let ?new = "\<lparr>p_id = page_id_seq d, path = pa, checksum = None, ptype = ty, source = so,
      meta = me, parent_page_id = par, version = ve, last_refresh = da\<rparr>"
  let ?d' = "snd (upsert_page pa ty so me par ve da d)"
  have d': "page ?d' = page d @ [?new]" "page_section ?d' = page_section d"
    "page_id_seq ?d' = Suc (page_id_seq d)"
    using None by (simp_all add: upsert_page_def)
  from None have fresh: "pa \<notin> path ` set (page d)" by (auto simp: find_None_iff)
  have "consistent ?d'"
    using c fresh unfolding consistent_def d' by (auto simp: less_Suc_eq)
  moreover have "entry ?d' q = entry d q" if q: "q \<noteq> pa" for q
    using q d' by (simp add: entry_def page_at_def sections_of_def find_other_append
        cong: option.case_cong)
  ultimately show ?thesis by (simp add: only_touches_def)
next
  case (Some old)
  let ?f = "\<lambda>r. if path r = pa
      then r\<lparr>checksum := None, ptype := ty, source := so, meta := me,
             parent_page_id := par, version := ve, last_refresh := da\<rparr>
      else r"
  let ?d' = "snd (upsert_page pa ty so me par ve da d)"
  have d': "page ?d' = map ?f (page d)" "page_section ?d' = page_section d"
    "page_id_seq ?d' = page_id_seq d"
    using Some by (simp_all add: upsert_page_def)
  have at: "page_at d pa = Some old" using Some by (simp add: page_at_def)
  have "list_all2 (keeps_key (p_id old)) (page d) (page ?d')"
    unfolding d' list_all2_map2 list_all2_same
  proof (intro ballI)
    fix r assume r: "r \<in> set (page d)"
    show "keeps_key (p_id old) r (?f r)"
    proof (cases "path r = pa")
      case True
      from c r page_at_member [of d r] have "page_at d (path r) = Some r"
        by (simp add: consistent_def)
      with True at have "r = old" by simp
      then show ?thesis by (simp add: keeps_key_def)
    next
      case False
      then show ?thesis by (simp add: keeps_key_def)
    qed
  qed
  from only_touches_by_id [OF c at this d'(2,3)] show ?thesis .
qed

lemma only_touches_update_page_checksum:
  assumes c: "consistent d" and at: "page_at d pa = Some r"
  shows "only_touches pa d (snd (update_page_checksum cs (p_id r) d))"
proof -
  let ?d' = "snd (update_page_checksum cs (p_id r) d)"
  have "list_all2 (keeps_key (p_id r)) (page d) (page ?d')"
    by (simp add: update_page_checksum_def list_all2_map2 list_all2_same keeps_key_def)
  from only_touches_by_id [OF c at this] show ?thesis
    by (simp add: update_page_checksum_def)
qed

lemma only_touches_rows:
  assumes c: "consistent d" and at: "page_at d pa = Some r"
    and same: "page d' = page d" "page_id_seq d' = page_id_seq d"
    and rows: "page_section d' = page_section d @ rows" "\<forall>s\<in>set rows. page_id s = p_id r"
  shows "only_touches pa d d'"
proof -
  from at have "r \<in> set (page d)" by (auto dest: page_at_SomeD)
  with c have "p_id r < page_id_seq d" by (simp add: consistent_def)
  with c same rows have "consistent d'" by (auto simp: consistent_def)
  moreover have "entry d' q = entry d q" if q: "q \<noteq> pa" for q
  proof (cases "page_at d q")
    case None
    with same show ?thesis by (simp add: entry_def page_at_def)
  next
    case r2: (Some r2)
    from other_path_other_id [OF c at r2 q] rows(2)
    have "filter (\<lambda>s. page_id s = p_id r2) rows = []" by (auto simp: filter_empty_conv)
    then have "sections_of d' (p_id r2) = sections_of d (p_id r2)"
      by (simp add: sections_of_def rows(1))
    with r2 same show ?thesis by (simp add: entry_def page_at_def)
  qed
  ultimately show ?thesis by (simp add: only_touches_def)
qed

lemma only_touches_consistent: "only_touches pa d d' \<Longrightarrow> consistent d'"
  by (simp add: only_touches_def)

lemma prefix_rows_page_id:
  assumes "map row_data rows = map (sec_data pid) (take (length rows) secs)"
  shows "\<forall>r\<in>set rows. page_id r = pid"
  using map_row_data_fields(4) [OF assms] .

lemma store_page_only_touches:
  assumes sp: "store_page e key ver dt src ld par w = (res, w')" and c: "consistent (db w)"
  shows "only_touches (src_path src) (db w) (db w')"
proof -
  let ?pa = "src_path src"
  let ?pid = "fst (upserted ver dt src ld par (db w))"
  let ?d1 = "snd (upserted ver dt src ld par (db w))"
  have t1: "only_touches ?pa (db w) ?d1"
    unfolding upserted_def by (rule only_touches_upsert [OF c])
  then have c1: "consistent ?d1" by (rule only_touches_consistent)
  from page_at_upsert obtain r1 where r1: "page_at ?d1 ?pa = Some r1" "p_id r1 = ?pid"
    unfolding upserted_def by blast
  have s1: "page_section ?d1 = page_section (db w)"
    by (simp add: upserted_def upsert_page_def split: option.splits)
  from store_page_effect [OF sp] show ?thesis
  proof (elim disjE conjE exE)
    assume "db w' = db w"
    with c show ?thesis by (simp add: only_touches_same)
  next
    fix rows m snaps
    assume rows: "page_section (db w') = page_section (db w) @ rows"
      "map row_data rows = map (sec_data ?pid) (take (length rows) (ld_sections ld))"
      and seq: "page_id_seq (db w') = page_id_seq ?d1"
      and cs: "case res of
          Inr _ \<Rightarrow> length rows = length (ld_sections ld) \<and> m = length (ld_sections ld)
             \<and> page (db w') = page (snd (update_page_checksum (ld_checksum ld) ?pid ?d1))
             \<and> snaps \<noteq> [] \<and> last snaps = db w'
             \<and> (\<forall>d\<in>set (butlast snaps). page d = page ?d1)
        | Inl _ \<Rightarrow> page (db w') = page ?d1 \<and> (\<forall>d\<in>set snaps. page d = page ?d1)
             \<and> (no_store_failure e \<longrightarrow>
                  length rows < length (ld_sections ld) \<and> m = Suc (length rows))"
    from prefix_rows_page_id [OF rows(2)] have ids: "\<forall>s\<in>set rows. page_id s = ?pid" .
    show ?thesis
    proof (cases res)
      case (Inl err)
      with cs have pg: "page (db w') = page ?d1" by simp
      from only_touches_rows [OF c1 r1(1) pg seq] rows(1) ids s1 r1(2)
      have "only_touches ?pa ?d1 (db w')" by simp
      with t1 show ?thesis by (rule only_touches_trans)
    next
      case (Inr u)
      let ?d2 = "snd (update_page_checksum (ld_checksum ld) ?pid ?d1)"
      from Inr cs have pg: "page (db w') = page ?d2" by simp
      have t2: "only_touches ?pa ?d1 ?d2"
        using only_touches_update_page_checksum [OF c1 r1(1)] r1(2) by simp
      then have c2: "consistent ?d2" by (rule only_touches_consistent)
      have r2: "page_at ?d2 ?pa = Some (r1\<lparr>checksum := Some (ld_checksum ld)\<rparr>)"
        using page_at_update_page_checksum [OF r1(1)] r1(2) by simp
      have s2: "page_section ?d2 = page_section (db w)" "page_id_seq ?d2 = page_id_seq ?d1"
        using s1 by (simp_all add: update_page_checksum_def)
      from only_touches_rows [OF c2 r2 pg] seq rows(1) ids s2 r1(2)
      have "only_touches ?pa ?d2 (db w')" by simp
      with t1 t2 show ?thesis by (blast intro: only_touches_trans)
    qed
  qed
qed

lemma resync_only_touches:
  assumes rs: "resync e key sr ver dt src ld (page_at (db w) (src_path src)) w = (res, w')"
    and c: "consistent (db w)"
  shows "only_touches (src_path src) (db w) (db w')"
proof -
  let ?pa = "src_path src"
  have tp: "only_touches ?pa (db w) (purged (page_at (db w) ?pa) (db w))"
    by (rule only_touches_purged [OF c])
  from resync_cases [OF rs] show ?thesis
  proof (elim disjE conjE exE)
    assume "db w' = db w"
    with c show ?thesis by (simp add: only_touches_same)
  next
    assume "db w' = purged (page_at (db w) ?pa) (db w)"
    with tp show ?thesis by simp
  next
    fix w1
    assume sp: "store_page e key ver dt src ld
        (fst (select_page_by_path (src_parentPath src) (db w))) w1 = (res, w')"
      and w1: "db w1 = purged (page_at (db w) ?pa) (db w)"
    from tp w1 have "consistent (db w1)" by (simp add: only_touches_def)
    from store_page_only_touches [OF sp this] tp w1 show ?thesis
      by (auto intro: only_touches_trans)
  qed
qed

lemma process_source_only_touches:
  assumes c: "consistent (db w)"
  shows "only_touches (src_path src) (db w) (db (snd (process_source e key sr ver dt src w)))"
proof -
  obtain res w' where b: "process_source_body e key sr ver dt src w = (res, w')"
    by (cases "process_source_body e key sr ver dt src w")
  have "only_touches (src_path src) (db w) (db w')"
  proof (cases "src_load src")
    case (Inl err)
    with b c show ?thesis by (simp add: body_load_fails only_touches_same)
  next
    case (Inr ld)
    show ?thesis
    proof (cases "query_fails e (queries w)")
      case (Some err)
      with b c Inr show ?thesis by (auto simp: body_select_fails only_touches_same)
    next
      case None
      let ?w1 = "w\<lparr>queries := Suc (queries w), snapshots := snapshots w @ [db w]\<rparr>"
      from b body_dispatch [OF Inr None, of key sr ver dt]
      consider (meta) ep where "page_at (db w) (src_path src) = Some ep"
          "refresh_metadata e ver dt src ld ep ?w1 = (res, w')"
        | (sync) "resync e key sr ver dt src ld (page_at (db w) (src_path src)) ?w1 = (res, w')"
        by (auto split: option.splits if_splits)
      then show ?thesis
      proof cases
        case meta
        from refresh_metadata_effect [OF meta(2)]
        have "list_all2 (keeps_key (p_id ep)) (page (db w)) (page (db w'))"
          "page_section (db w') = page_section (db w)" "page_id_seq (db w') = page_id_seq (db w)"
          by (auto dest: meta_only_keeps_key)
        from only_touches_by_id [OF c meta(1) this] show ?thesis .
      next
        case sync
        from resync_only_touches [of e key sr ver dt src ld ?w1 res w'] sync c
        show ?thesis by simp
      qed
    qed
  qed
  with process_source_world [OF b] show ?thesis by simp
qed

lemma refresh_metadata_stamped:
  assumes "no_store_failure e" and "page_at (db w) pa = Some ep"
  shows "\<exists>r. page_at (db (snd (refresh_metadata e ver dt src ld ep w))) pa = Some r
      \<and> version r = ver \<and> checksum r = checksum ep \<and> p_id r = p_id ep"
  using assms
  by (simp add: refresh_metadata_def await_def console_out_def return_def client_query_ok
      select_page_by_id_def select_page_by_path_def update_parent_page_id_def
      update_page_meta_def page_at_def find_map_same)

lemma store_page_fails:
  assumes "\<exists>s\<in>set (ld_sections ld). provider_fails e key (replace_newlines (sec_content s))"
  shows "\<exists>err. fst (store_page e key ver dt src ld par w) = Inl err"
proof (cases "query_fails e (queries w)")
  case (Some err)
  then show ?thesis by (simp add: store_page_def await_def client_query_Some)
next
  case None
  let ?pid = "fst (upserted ver dt src ld par (db w))"
  let ?w1 = "w\<lparr>db := snd (upserted ver dt src ld par (db w)), queries := Suc (queries w),
      snapshots := snapshots w @ [snd (upserted ver dt src ld par (db w))],
      console := console w @ [AddingSections (src_path src) (length (ld_sections ld))]\<rparr>"
  from embed_sections_fails [OF assms, of "src_path src" ?pid ?w1]
  obtain err w2 where "embed_sections e key (src_path src) ?pid (ld_sections ld) ?w1 = (Inl err, w2)"
    by (metis prod.collapse)
  with None show ?thesis
    by (simp add: store_page_def await_def client_query_None console_out_def upserted_def)
qed

lemma resync_fails:
  assumes "\<exists>s\<in>set (ld_sections ld). provider_fails e key (replace_newlines (sec_content s))"
  shows "\<exists>err. fst (resync e key sr ver dt src ld existingPage w) = Inl err"
proof -
  obtain res w' where rs: "resync e key sr ver dt src ld existingPage w = (res, w')"
    by (cases "resync e key sr ver dt src ld existingPage w")
  from resync_cases [OF rs] store_page_fails [OF assms, of ver dt src] rs show ?thesis
    by (elim disjE conjE exE) (auto, metis fst_conv)
qed

lemma resync_reaches_store_page:
  assumes "no_store_failure e"
  shows "\<exists>w1. resync e key sr ver dt src ld existingPage w =
         store_page e key ver dt src ld (fst (select_page_by_path (src_parentPath src) (db w))) w1
       \<and> db w1 = purged existingPage (db w) \<and> embedding_calls w1 = embedding_calls w"
proof (cases existingPage)
  case None
  show ?thesis
    using assms unfolding None
    by (intro exI [of _ "w\<lparr>queries := Suc (queries w), snapshots := snapshots w @ [db w]\<rparr>"])
       (simp add: resync_def purge_sections_def await_def return_def client_query_ok purged_def
          select_page_by_path_def)
next
  case (Some ep)
  let ?d0 = "snd (delete_page_sections (p_id ep) (db w))"
  show ?thesis
    using assms unfolding Some
    by (intro exI [of _ "w\<lparr>console := console w @ [RemovingOldSections (src_path src) sr],
          db := ?d0, queries := Suc (Suc (queries w)),
          snapshots := snapshots w @ [?d0, ?d0]\<rparr>"])
       (simp add: resync_def purge_sections_def await_def console_out_def client_query_ok
          purged_def select_page_by_path_def delete_page_sections_def cong: option.case_cong)
qed

lemma upsert_id_sections_empty:
  assumes c: "consistent d"
  shows "sections_of (purged (page_at d pa) d)
           (fst (upsert_page pa ty so me par ve da (purged (page_at d pa) d))) = []"
proof (cases "page_at d pa")
  case None
  then have "fst (upsert_page pa ty so me par ve da (purged (page_at d pa) d)) = page_id_seq d"
    by (simp add: purged_def upsert_page_def page_at_def)
  with None c show ?thesis
    by (auto simp: purged_def sections_of_def consistent_def filter_empty_conv)
next
  case (Some ep)
  then have "fst (upsert_page pa ty so me par ve da (purged (page_at d pa) d)) = p_id ep"
    by (simp add: purged_def upsert_page_def page_at_def delete_page_sections_def)
  with Some show ?thesis
    by (simp add: purged_def sections_of_def delete_page_sections_def filter_empty_conv)
qed


lemma store_page_effect_ok:
  assumes sp: "store_page e key ver dt src ld par w = (res, w')" and nsf: "no_store_failure e"
  shows "\<exists>rows.
      page_section (db w') = page_section (db w) @ rows
    \<and> map row_data rows = map (sec_data (fst (upserted ver dt src ld par (db w))))
         (take (length rows) (ld_sections ld))
    \<and> (\<forall>r\<in>set rows. from_provider e key r)
    \<and> (case res of
          Inr _ \<Rightarrow> length rows = length (ld_sections ld)
             \<and> page (db w') = page (snd (update_page_checksum (ld_checksum ld)
                    (fst (upserted ver dt src ld par (db w)))
                    (snd (upserted ver dt src ld par (db w)))))
        | Inl _ \<Rightarrow> page (db w') = page (snd (upserted ver dt src ld par (db w)))
             \<and> length rows < length (ld_sections ld))"
  using store_page_effect [OF sp]
proof (elim disjE conjE exE)
  assume "query_fails e (queries w) \<noteq> None"
  with nsf show ?thesis by (simp add: no_store_failure_def)
next
  fix rows m snaps
  assume rows: "page_section (db w') = page_section (db w) @ rows"
    "map row_data rows = map (sec_data (fst (upserted ver dt src ld par (db w))))
       (take (length rows) (ld_sections ld))"
    "\<forall>r\<in>set rows. from_provider e key r"
    and cs: "case res of
          Inr _ \<Rightarrow> length rows = length (ld_sections ld) \<and> m = length (ld_sections ld)
             \<and> page (db w') = page (snd (update_page_checksum (ld_checksum ld)
                    (fst (upserted ver dt src ld par (db w)))
                    (snd (upserted ver dt src ld par (db w)))))
             \<and> snaps \<noteq> [] \<and> last snaps = db w'
             \<and> (\<forall>d\<in>set (butlast snaps). page d = page (snd (upserted ver dt src ld par (db w))))
        | Inl _ \<Rightarrow> page (db w') = page (snd (upserted ver dt src ld par (db w)))
             \<and> (\<forall>d\<in>set snaps. page d = page (snd (upserted ver dt src ld par (db w))))
             \<and> (no_store_failure e \<longrightarrow>
                  length rows < length (ld_sections ld) \<and> m = Suc (length rows))"
  from cs nsf have "case res of
          Inr _ \<Rightarrow> length rows = length (ld_sections ld)
             \<and> page (db w') = page (snd (update_page_checksum (ld_checksum ld)
                    (fst (upserted ver dt src ld par (db w)))
                    (snd (upserted ver dt src ld par (db w)))))
        | Inl _ \<Rightarrow> page (db w') = page (snd (upserted ver dt src ld par (db w)))
             \<and> length rows < length (ld_sections ld)"
    by (cases res) simp_all
  with rows show ?thesis by (intro exI [of _ rows]) simp
qed

lemma process_source_outcome:
  assumes nsf: "no_store_failure e" and c: "consistent (db w)" and load: "src_load src = Inr ld"
  shows "outcome e key sr ver ld (entry (db w) (src_path src))
           (entry (db (snd (process_source e key sr ver dt src w))) (src_path src))"
proof -
  let ?pa = "src_path src"
  let ?w1 = "w\<lparr>queries := Suc (queries w), snapshots := snapshots w @ [db w]\<rparr>"
  from nsf have q: "query_fails e (queries w) = None" by (simp add: no_store_failure_def)
  obtain res w' where b: "process_source_body e key sr ver dt src w = (res, w')"
    by (cases "process_source_body e key sr ver dt src w")
  from process_source_world [OF b]
  have fin: "db (snd (process_source e key sr ver dt src w)) = db w'" by simp
  show ?thesis
  proof (cases "unchanged sr (page_at (db w) ?pa) ld")
    case True
    then obtain ep where ep: "page_at (db w) ?pa = Some ep" "checksum ep = Some (ld_checksum ld)"
      by (auto dest: unchanged_Some)
    from b body_dispatch [OF load q, of key sr ver dt] ep True
    have m: "refresh_metadata e ver dt src ld ep ?w1 = (res, w')" by simp
    have "page_at (db ?w1) ?pa = Some ep" using ep by simp
    from refresh_metadata_stamped [OF nsf this, of ver dt src ld] m
    obtain r where r: "page_at (db w') ?pa = Some r" "version r = ver"
      "checksum r = checksum ep" "p_id r = p_id ep" by auto
    from refresh_metadata_effect [OF m] have "page_section (db w') = page_section (db w)" by simp
    with r ep True show ?thesis
      unfolding fin by (simp add: outcome_def entry_def sections_of_def)
  next
    case False
    from b body_dispatch [OF load q, of key sr ver dt] False
    have rs: "resync e key sr ver dt src ld (page_at (db w) ?pa) ?w1 = (res, w')"
      by (auto split: option.splits)
    let ?par = "fst (select_page_by_path (src_parentPath src) (db w))"
    let ?d0 = "purged (page_at (db w) ?pa) (db w)"
    from resync_reaches_store_page [OF nsf, of key sr ver dt src ld "page_at (db w) ?pa" ?w1] rs
    obtain w1 where sp: "store_page e key ver dt src ld ?par w1 = (res, w')"
      and w1: "db w1 = ?d0" by auto
    let ?pid = "fst (upserted ver dt src ld ?par ?d0)"
    let ?d1 = "snd (upserted ver dt src ld ?par ?d0)"
    from page_at_upsert obtain r1 where r1: "page_at ?d1 ?pa = Some r1" "p_id r1 = ?pid"
      "checksum r1 = None" "version r1 = ver"
      unfolding upserted_def by blast
    from store_page_effect_ok [OF sp nsf, unfolded w1] obtain rows where eff:
      "page_section (db w') = page_section ?d0 @ rows"
      "map row_data rows = map (sec_data ?pid) (take (length rows) (ld_sections ld))"
      "\<forall>r\<in>set rows. from_provider e key r"
      "case res of
          Inr _ \<Rightarrow> length rows = length (ld_sections ld)
             \<and> page (db w') = page (snd (update_page_checksum (ld_checksum ld) ?pid ?d1))
        | Inl _ \<Rightarrow> page (db w') = page ?d1 \<and> length rows < length (ld_sections ld)"
      by blast
    from prefix_rows_page_id [OF eff(2)] have ids: "\<forall>s\<in>set rows. page_id s = ?pid" .
    have "sections_of ?d0 ?pid = []"
      unfolding upserted_def by (rule upsert_id_sections_empty [OF c])
    with eff(1) ids have secs: "sections_of (db w') ?pid = rows"
      by (simp add: sections_of_def)
    have ok: "(\<forall>s\<in>set (ld_sections ld). provider_ok e key (replace_newlines (sec_content s)))
        \<longrightarrow> length rows = length (ld_sections ld)"
    proof
      assume "\<forall>s\<in>set (ld_sections ld). provider_ok e key (replace_newlines (sec_content s))"
      from store_page_ok [OF nsf this, of ver dt src ?par w1] sp eff(4)
      show "length rows = length (ld_sections ld)" by simp
    qed
    have bad: "(\<exists>s\<in>set (ld_sections ld). provider_fails e key (replace_newlines (sec_content s)))
        \<longrightarrow> length rows < length (ld_sections ld)"
    proof
      assume "\<exists>s\<in>set (ld_sections ld). provider_fails e key (replace_newlines (sec_content s))"
      from store_page_fails [OF this, of ver dt src ?par w1] sp eff(4)
      show "length rows < length (ld_sections ld)" by auto
    qed
    show ?thesis
    proof (cases res)
      case (Inl err)
      with eff(4) have "page (db w') = page ?d1" "length rows < length (ld_sections ld)" by simp_all
      with page_at_cong [of "db w'" ?d1 ?pa] r1 have "page_at (db w') ?pa = Some r1" by simp
      with r1 secs eff \<open>length rows < length (ld_sections ld)\<close> False ok bad show ?thesis
        unfolding fin by (simp add: outcome_def entry_def)
    next
      case (Inr u)
      with eff(4) have l: "length rows = length (ld_sections ld)"
        and pg: "page (db w') = page (snd (update_page_checksum (ld_checksum ld) ?pid ?d1))"
        by simp_all
      from page_at_cong [OF pg, of ?pa] page_at_update_page_checksum [OF r1(1)] r1(2)
      have "page_at (db w') ?pa = Some (r1\<lparr>checksum := Some (ld_checksum ld)\<rparr>)" by simp
      with r1 secs eff l False ok bad show ?thesis
        unfolding fin by (simp add: outcome_def entry_def)
    qed
  qed
qed


lemma process_sources_frame:
  "consistent (db w) \<Longrightarrow>
   consistent (db (snd (process_sources e key sr ver dt srcs w)))
   \<and> (\<forall>q. q \<notin> src_path ` set srcs \<longrightarrow>
         entry (db (snd (process_sources e key sr ver dt srcs w))) q = entry (db w) q)"
proof (induction srcs arbitrary: w)
  case Nil
  then show ?case by (simp add: return_def)
next
  case (Cons src srcs)
  let ?w1 = "snd (process_source e key sr ver dt src w)"
  from process_source_only_touches [OF Cons.prems, of src e key sr ver dt]
  have t: "consistent (db ?w1)" "\<forall>q. q \<noteq> src_path src \<longrightarrow> entry (db ?w1) q = entry (db w) q"
    by (simp_all add: only_touches_def)
  from Cons.IH [OF t(1)] t(2) show ?case
    unfolding process_sources_step by simp
qed

lemma process_sources_outcome:
  "no_store_failure e \<Longrightarrow> consistent (db w) \<Longrightarrow> distinct (map src_path srcs) \<Longrightarrow>
   \<forall>src\<in>set srcs. \<forall>ld. src_load src = Inr ld \<longrightarrow>
     outcome e key sr ver ld (entry (db w) (src_path src))
       (entry (db (snd (process_sources e key sr ver dt srcs w))) (src_path src))"
proof (induction srcs arbitrary: w)
  case Nil
  then show ?case by simp
next
  case (Cons src srcs)
  let ?w1 = "snd (process_source e key sr ver dt src w)"
  let ?end = "snd (process_sources e key sr ver dt srcs ?w1)"
  from process_source_only_touches [OF Cons.prems(2), of src e key sr ver dt]
  have t: "consistent (db ?w1)" "\<forall>q. q \<noteq> src_path src \<longrightarrow> entry (db ?w1) q = entry (db w) q"
    by (simp_all add: only_touches_def)
  from Cons.prems(3) have d: "src_path src \<notin> src_path ` set srcs" "distinct (map src_path srcs)"
    by simp_all
  from process_sources_frame [OF t(1), of e key sr ver dt srcs] d(1)
  have keep: "entry (db ?end) (src_path src) = entry (db ?w1) (src_path src)" by simp
  have head: "outcome e key sr ver ld (entry (db w) (src_path src)) (entry (db ?end) (src_path src))"
    if "src_load src = Inr ld" for ld
    unfolding keep by (rule process_source_outcome [OF Cons.prems(1,2) that])
  have tail: "outcome e key sr ver ld (entry (db w) (src_path s)) (entry (db ?end) (src_path s))"
    if s: "s \<in> set srcs" "src_load s = Inr ld" for s ld
  proof -
    from s(1) have "src_path s \<in> src_path ` set srcs" by (rule imageI)
    with d(1) have "src_path s \<noteq> src_path src" by metis
    with t(2) have "entry (db ?w1) (src_path s) = entry (db w) (src_path s)" by simp
    with Cons.IH [OF Cons.prems(1) t(1) d(2)] s show ?thesis by auto
  qed
  from head tail show ?case
    unfolding process_sources_step by auto
qed










lemma empty_store_consistent: "consistent (db world0)"
  by (simp add: consistent_def world0_def empty_store_def)













section \<open>The claims\<close>

text \<open>
  Claim C1.  In the new, changed or forced case the row of the page has checksum NULL
  from the upsert on: the upsert writes NULL on a fresh insert and on a conflict alike,
  no query of the section loop touches table \<open>page\<close>, and the checksum is written once,
  by the last query, after every section was embedded and inserted.  The theorem speaks
  about every store that can be observed from the upsert to the end of lines 81 to 128:
  in each of them the page has a row, and its checksum is NULL unless this is the last
  store of a pass that succeeded, and then the checksum is the fresh one and the rows of
  all sections of the source are in table \<open>page_section\<close>.
\<close>

theorem checksum_null_until_sections_stored:
  assumes sp: "store_page e key ver dt src ld par w = (res, w')"
  shows "\<exists>snaps. snapshots w' = snapshots w @ snaps
     \<and> (\<forall>i<length snaps. \<exists>r. page_at (snaps ! i) (src_path src) = Some r
          \<and> (checksum r = None
             \<or> res = Inr () \<and> Suc i = length snaps \<and> checksum r = Some (ld_checksum ld)
               \<and> (\<exists>rows. page_section (snaps ! i) = page_section (db w) @ rows
                    \<and> map row_data rows = map (sec_data (p_id r)) (ld_sections ld)
                    \<and> (\<forall>x\<in>set rows. from_provider e key x))))
     \<and> (res = Inr () \<longrightarrow> snaps \<noteq> [] \<and> last snaps = db w'
          \<and> (\<exists>r. page_at (db w') (src_path src) = Some r
                 \<and> checksum r = Some (ld_checksum ld)))"
proof -
  define pid where "pid = fst (upserted ver dt src ld par (db w))"
  define d1 where "d1 = snd (upserted ver dt src ld par (db w))"
  from page_at_upsert obtain r1 where r1:
    "page_at d1 (src_path src) = Some r1" "p_id r1 = pid" "checksum r1 = None"
    unfolding d1_def pid_def upserted_def by blast
  have upd: "page_at (snd (update_page_checksum (ld_checksum ld) pid d1)) (src_path src)
      = Some (r1\<lparr>checksum := Some (ld_checksum ld)\<rparr>)"
    using page_at_update_page_checksum [OF r1(1)] r1(2) by simp
  from store_page_effect [OF sp, folded pid_def d1_def]
  consider
    (a) "snapshots w' = snapshots w" "\<exists>err. res = Inl err"
  | (b) rows m snaps where
      "page_section (db w') = page_section (db w) @ rows"
      "map row_data rows = map (sec_data pid) (take (length rows) (ld_sections ld))"
      "\<forall>r\<in>set rows. from_provider e key r"
      "snapshots w' = snapshots w @ d1 # snaps"
      "case res of
          Inr _ \<Rightarrow> length rows = length (ld_sections ld) \<and> m = length (ld_sections ld)
             \<and> page (db w') = page (snd (update_page_checksum (ld_checksum ld) pid d1))
             \<and> snaps \<noteq> [] \<and> last snaps = db w'
             \<and> (\<forall>d\<in>set (butlast snaps). page d = page d1)
        | Inl _ \<Rightarrow> page (db w') = page d1 \<and> (\<forall>d\<in>set snaps. page d = page d1)
             \<and> (no_store_failure e \<longrightarrow>
                  length rows < length (ld_sections ld) \<and> m = Suc (length rows))"
    by blast
  then show ?thesis
  proof cases
    case a
    then show ?thesis by (intro exI [of _ "[]"]) auto
  next
    case b
    have each: "\<exists>r. page_at ((d1 # snaps) ! i) (src_path src) = Some r
          \<and> (checksum r = None
             \<or> res = Inr () \<and> Suc i = length (d1 # snaps) \<and> checksum r = Some (ld_checksum ld)
               \<and> (\<exists>rows. page_section ((d1 # snaps) ! i) = page_section (db w) @ rows
                    \<and> map row_data rows = map (sec_data (p_id r)) (ld_sections ld)
                    \<and> (\<forall>x\<in>set rows. from_provider e key x)))"
      if i: "i < length (d1 # snaps)" for i
    proof (cases i)
      case 0
      with r1 show ?thesis by auto
    next
      case (Suc j)
      with i have j: "j < length snaps" by simp
      show ?thesis
      proof (cases res)
        case (Inl err)
        with b(5) j have "page (snaps ! j) = page d1" by auto
        from page_at_cong [OF this] r1 Suc show ?thesis by auto
      next
        case (Inr u)
        with b(5) have fin: "length rows = length (ld_sections ld)"
          "page (db w') = page (snd (update_page_checksum (ld_checksum ld) pid d1))"
          "last snaps = db w'" "\<forall>d\<in>set (butlast snaps). page d = page d1"
          by auto
        from nth_butlast_or_last [OF j] show ?thesis
        proof
          assume l: "Suc j = length snaps \<and> snaps ! j = last snaps"
          have "(d1 # snaps) ! i = snaps ! j" using Suc by simp
          with l fin have here: "(d1 # snaps) ! i = db w'" by simp
          have at: "page_at (db w') (src_path src)
              = Some (r1\<lparr>checksum := Some (ld_checksum ld)\<rparr>)"
            using page_at_cong [OF fin(2)] upd by simp
          have "map row_data rows = map (sec_data (p_id r1)) (ld_sections ld)"
            using b(2) fin(1) r1(2) by simp
          with b(1,3) have "\<exists>rows. page_section (db w') = page_section (db w) @ rows
                    \<and> map row_data rows
                        = map (sec_data (p_id (r1\<lparr>checksum := Some (ld_checksum ld)\<rparr>))) (ld_sections ld)
                    \<and> (\<forall>x\<in>set rows. from_provider e key x)"
            by (intro exI [of _ rows]) simp
          with at l Suc Inr show ?thesis
            unfolding here by (intro exI [of _ "r1\<lparr>checksum := Some (ld_checksum ld)\<rparr>"]) simp
        next
          assume "Suc j < length snaps \<and> snaps ! j \<in> set (butlast snaps)"
          with fin have "page (snaps ! j) = page d1" by auto
          from page_at_cong [OF this] r1 Suc show ?thesis by auto
        qed
      qed
    qed
    have final: "snaps \<noteq> [] \<and> last (d1 # snaps) = db w'
          \<and> (\<exists>r. page_at (db w') (src_path src) = Some r \<and> checksum r = Some (ld_checksum ld))"
      if "res = Inr ()"
      using that b(5) page_at_cong [of "db w'" "snd (update_page_checksum (ld_checksum ld) pid d1)"] upd
      by auto
    show ?thesis
      using b(4) each final
      by (intro exI [of _ "d1 # snaps"]) auto
  qed
qed

theorem checksum_null_until_sections_stored_witness:
  "fst guide_stored = Inr ()
   \<and> (\<exists>r. page_at (db (snd guide_stored)) ''guide.md'' = Some r \<and> checksum r = Some ''sum-guide'')"
proof -
  have ok: "fst guide_stored = Inr ()" by code_simp
  then have h: "store_page env_ok ''sk'' ''run-1'' 100 src_guide (the_loaded src_guide) None world0
      = (Inr (), snd guide_stored)"
    by (simp add: guide_stored_def prod_eq_iff)
  from checksum_null_until_sections_stored [OF h] ok show ?thesis
    by (auto simp: src_guide_def the_loaded_def)
qed

text \<open>
  Claim C2.  The test of line 45 decides.  When \<open>shouldRefresh\<close> is false and the row of
  the path holds the checksum just computed, the turn of the loop sends nothing to the
  provider and leaves table \<open>page_section\<close> as it was, whatever queries are rejected.  In
  every other case a turn that runs to its end has deleted the sections the page had,
  has sent the normalized content of every section of the source to the provider, and
  has appended one row for each of them, in order, under the id of the page, whose
  checksum is then the fresh one; and the turn does run to its end when no query is
  rejected and the provider answers every section.
\<close>

theorem checksum_gates_regeneration:
  assumes load: "src_load src = Inr ld"
  shows "(unchanged sr (page_at (db w) (src_path src)) ld \<longrightarrow>
            embedding_calls (snd (process_source e key sr ver dt src w)) = embedding_calls w
          \<and> page_section (db (snd (process_source e key sr ver dt src w))) = page_section (db w))
       \<and> (\<not> unchanged sr (page_at (db w) (src_path src)) ld \<longrightarrow>
            (\<forall>u w'. process_source_body e key sr ver dt src w = (Inr u, w') \<longrightarrow>
               (\<exists>rows r.
                   page_section (db w') =
                     filter (\<lambda>s. \<forall>ep. page_at (db w) (src_path src) = Some ep \<longrightarrow> page_id s \<noteq> p_id ep)
                       (page_section (db w)) @ rows
                 \<and> map row_data rows = map (sec_data (p_id r)) (ld_sections ld)
                 \<and> (\<forall>x\<in>set rows. from_provider e key x)
                 \<and> embedding_calls w' =
                     embedding_calls w @
                       map (\<lambda>s. replace_newlines (sec_content s)) (ld_sections ld)
                 \<and> page_at (db w') (src_path src) = Some r
                 \<and> checksum r = Some (ld_checksum ld)))
          \<and> (no_store_failure e
               \<and> (\<forall>s\<in>set (ld_sections ld). provider_ok e key (replace_newlines (sec_content s)))
              \<longrightarrow> (\<exists>w'. process_source_body e key sr ver dt src w = (Inr (), w'))))"
proof (intro conjI impI allI)
  assume un: "unchanged sr (page_at (db w) (src_path src)) ld"
  then obtain ep where ep: "page_at (db w) (src_path src) = Some ep" by (auto dest: unchanged_Some)
  have "embedding_calls (snd (process_source e key sr ver dt src w)) = embedding_calls w
      \<and> page_section (db (snd (process_source e key sr ver dt src w))) = page_section (db w)"
  proof (cases "query_fails e (queries w)")
    case (Some err)
    from process_source_world [OF body_select_fails [OF load Some], of key sr ver dt]
    show ?thesis by simp
  next
    case None
    let ?w1 = "w\<lparr>queries := Suc (queries w), snapshots := snapshots w @ [db w]\<rparr>"
    obtain res w' where m: "refresh_metadata e ver dt src ld ep ?w1 = (res, w')"
      by (cases "refresh_metadata e ver dt src ld ep ?w1")
    with body_dispatch [OF load None, of key sr ver dt] ep un
    have b: "process_source_body e key sr ver dt src w = (res, w')" by simp
    from process_source_world [OF b] refresh_metadata_effect [OF m] show ?thesis by simp
  qed
  then show "embedding_calls (snd (process_source e key sr ver dt src w)) = embedding_calls w"
    and "page_section (db (snd (process_source e key sr ver dt src w))) = page_section (db w)"
    by simp_all
next
  fix u w'
  assume ch: "\<not> unchanged sr (page_at (db w) (src_path src)) ld"
    and b: "process_source_body e key sr ver dt src w = (Inr u, w')"
  have q: "query_fails e (queries w) = None"
  proof (cases "query_fails e (queries w)")
    case (Some err)
    with body_select_fails [OF load Some, of key sr ver dt] b show ?thesis by simp
  qed simp
  let ?w1 = "w\<lparr>queries := Suc (queries w), snapshots := snapshots w @ [db w]\<rparr>"
  from body_dispatch [OF load q, of key sr ver dt] ch b
  have rs: "resync e key sr ver dt src ld (page_at (db w) (src_path src)) ?w1 = (Inr u, w')"
    by (auto split: option.splits)
  have old: "page_section (purged (page_at (db w) (src_path src)) (db w)) =
      filter (\<lambda>s. \<forall>ep. page_at (db w) (src_path src) = Some ep \<longrightarrow> page_id s \<noteq> p_id ep)
        (page_section (db w))"
    by (simp add: purged_def delete_page_sections_def split: option.splits)
  from resync_done [OF rs] old
  show "\<exists>rows r.
         page_section (db w') =
           filter (\<lambda>s. \<forall>ep. page_at (db w) (src_path src) = Some ep \<longrightarrow> page_id s \<noteq> p_id ep)
             (page_section (db w)) @ rows
       \<and> map row_data rows = map (sec_data (p_id r)) (ld_sections ld)
       \<and> (\<forall>x\<in>set rows. from_provider e key x)
       \<and> embedding_calls w' =
           embedding_calls w @ map (\<lambda>s. replace_newlines (sec_content s)) (ld_sections ld)
       \<and> page_at (db w') (src_path src) = Some r
       \<and> checksum r = Some (ld_checksum ld)"
    by auto
next
  assume ch: "\<not> unchanged sr (page_at (db w) (src_path src)) ld"
    and ok: "no_store_failure e
       \<and> (\<forall>s\<in>set (ld_sections ld). provider_ok e key (replace_newlines (sec_content s)))"
  then have q: "query_fails e (queries w) = None" by (simp add: no_store_failure_def)
  let ?w1 = "w\<lparr>queries := Suc (queries w), snapshots := snapshots w @ [db w]\<rparr>"
  from body_dispatch [OF load q, of key sr ver dt] ch
  have "process_source_body e key sr ver dt src w
      = resync e key sr ver dt src ld (page_at (db w) (src_path src)) ?w1"
    by (auto split: option.splits)
  with resync_ok [of e ld key sr ver dt src "page_at (db w) (src_path src)" ?w1] ok
  show "\<exists>w'. process_source_body e key sr ver dt src w = (Inr (), w')"
    by (metis prod.collapse)
qed

theorem checksum_gates_regeneration_witness:
  "unchanged False (page_at (db world1) (src_path src_guide)) (the_loaded src_guide)
   \<and> embedding_calls (snd (process_source env_again ''sk'' False ''run-2'' 200 src_guide world1))
       = embedding_calls world1
   \<and> page_section (db (snd (process_source env_again ''sk'' False ''run-2'' 200 src_guide world1)))
       = page_section (db world1)
   \<and> \<not> unchanged False (page_at (db world0) (src_path src_guide)) (the_loaded src_guide)
   \<and> (\<exists>w'. process_source_body env_ok ''sk'' False ''run-1'' 100 src_guide world0 = (Inr (), w'))"
proof -
  have load: "src_load src_guide = Inr (the_loaded src_guide)"
    by (simp add: src_guide_def the_loaded_def)
  have same: "unchanged False (page_at (db world1) (src_path src_guide)) (the_loaded src_guide)"
    by code_simp
  have new: "\<not> unchanged False (page_at (db world0) (src_path src_guide)) (the_loaded src_guide)"
    by (simp add: unchanged_def page_at_def world0_def empty_store_def)
  have ok: "no_store_failure env_ok
       \<and> (\<forall>s\<in>set (ld_sections (the_loaded src_guide)).
            provider_ok env_ok ''sk'' (replace_newlines (sec_content s)))"
    by (simp add: env_ok_no_store_failure env_ok_provider_ok)
  from checksum_gates_regeneration [OF load, of False world1 env_again "''sk''" "''run-2''" 200]
    checksum_gates_regeneration [OF load, of False world0 env_ok "''sk''" "''run-1''" 100]
    same new ok
  show ?thesis by blast
qed




text \<open>
  Claim C4.  A list of sources with distinct paths, all of which load; no query is
  rejected; the provider rejects a section of the source \<open>bad\<close>, which is not up to date,
  and answers every section of the others.  The loop does not throw.  At its end the
  row of \<open>bad\<close> has checksum NULL and the version of the run, and its sections are a
  proper prefix of the sections of the source (\<open>entry\<close> gives the row of a path and the
  rows of table \<open>page_section\<close> under its id).  Every other source has its row, with the
  fresh checksum and the version of the run, and either the sections it already had,
  when it was up to date, or one row for each section of the source, in order.
\<close>

theorem one_failing_source_is_contained:
  assumes nsf: "no_store_failure e" and c: "consistent (db w)"
    and dist: "distinct (map src_path srcs)"
    and bad: "bad \<in> set srcs" "src_load bad = Inr ldb"
      "\<not> unchanged sr (page_at (db w) (src_path bad)) ldb"
      "\<exists>s\<in>set (ld_sections ldb). provider_fails e key (replace_newlines (sec_content s))"
    and others: "\<forall>src\<in>set srcs. src \<noteq> bad \<longrightarrow>
        (\<exists>ld. src_load src = Inr ld
           \<and> (\<forall>s\<in>set (ld_sections ld). provider_ok e key (replace_newlines (sec_content s))))"
  shows "fst (process_sources e key sr ver dt srcs w) = Inr ()
     \<and> (\<exists>r secs.
          entry (db (snd (process_sources e key sr ver dt srcs w))) (src_path bad) = (Some r, secs)
        \<and> checksum r = None \<and> version r = ver
        \<and> length secs < length (ld_sections ldb)
        \<and> map row_data secs = map (sec_data (p_id r)) (take (length secs) (ld_sections ldb)))
     \<and> (\<forall>src\<in>set srcs. src \<noteq> bad \<longrightarrow>
          (\<forall>ld. src_load src = Inr ld \<longrightarrow>
            (\<exists>r secs.
               entry (db (snd (process_sources e key sr ver dt srcs w))) (src_path src)
                 = (Some r, secs)
             \<and> checksum r = Some (ld_checksum ld) \<and> version r = ver
             \<and> (if unchanged sr (page_at (db w) (src_path src)) ld
                 then secs = snd (entry (db w) (src_path src))
                 else map row_data secs = map (sec_data (p_id r)) (ld_sections ld)))))"
proof (intro conjI ballI impI allI)
  show "fst (process_sources e key sr ver dt srcs w) = Inr ()"
    using process_sources_keeps [of e key sr ver dt srcs w] by simp
next
  let ?after = "entry (db (snd (process_sources e key sr ver dt srcs w))) (src_path bad)"
  from process_sources_outcome [OF nsf c dist, of key sr ver dt] bad(1,2)
  have o: "outcome e key sr ver ldb (entry (db w) (src_path bad)) ?after" by blast
  then obtain r where r: "fst ?after = Some r" by (auto simp: outcome_def split: option.splits)
  from o r bad(3,4)
  have "checksum r = None \<and> version r = ver
      \<and> length (snd ?after) < length (ld_sections ldb)
      \<and> map row_data (snd ?after)
          = map (sec_data (p_id r)) (take (length (snd ?after)) (ld_sections ldb))"
    by (auto simp: outcome_def entry_def split: if_splits)
  with r show "\<exists>r secs. ?after = (Some r, secs)
        \<and> checksum r = None \<and> version r = ver
        \<and> length secs < length (ld_sections ldb)
        \<and> map row_data secs = map (sec_data (p_id r)) (take (length secs) (ld_sections ldb))"
    by (intro exI [of _ r] exI [of _ "snd ?after"]) (simp add: prod_eq_iff)
next
  fix src ld
  assume src: "src \<in> set srcs" "src \<noteq> bad" "src_load src = Inr ld"
  let ?after = "entry (db (snd (process_sources e key sr ver dt srcs w))) (src_path src)"
  from others src have ok: "\<forall>s\<in>set (ld_sections ld). provider_ok e key (replace_newlines (sec_content s))"
    by auto
  from process_sources_outcome [OF nsf c dist, of key sr ver dt] src(1,3)
  have o: "outcome e key sr ver ld (entry (db w) (src_path src)) ?after" by blast
  then obtain r where r: "fst ?after = Some r" by (auto simp: outcome_def split: option.splits)
  from o r ok
  have "checksum r = Some (ld_checksum ld) \<and> version r = ver
      \<and> (if unchanged sr (page_at (db w) (src_path src)) ld
          then snd ?after = snd (entry (db w) (src_path src))
          else map row_data (snd ?after) = map (sec_data (p_id r)) (ld_sections ld))"
    by (auto simp: outcome_def entry_def split: if_splits)
  with r show "\<exists>r secs. ?after = (Some r, secs)
             \<and> checksum r = Some (ld_checksum ld) \<and> version r = ver
             \<and> (if unchanged sr (page_at (db w) (src_path src)) ld
                 then secs = snd (entry (db w) (src_path src))
                 else map row_data secs = map (sec_data (p_id r)) (ld_sections ld))"
    by (intro exI [of _ r] exI [of _ "snd ?after"]) (simp add: prod_eq_iff)
qed

theorem one_failing_source_is_contained_witness:
  "provider_fails env_down ''sk'' ''Run it''
   \<and> fst (process_sources env_down ''sk'' False ''run-1'' 100 [src_guide, src_auth] world0) = Inr ()
   \<and> (\<exists>r secs.
        entry (db (snd (process_sources env_down ''sk'' False ''run-1'' 100 [src_guide, src_auth] world0)))
          ''guide.md'' = (Some r, secs)
      \<and> checksum r = None \<and> length secs < 2)
   \<and> (\<exists>r secs.
        entry (db (snd (process_sources env_down ''sk'' False ''run-1'' 100 [src_guide, src_auth] world0)))
          ''api/auth.mdx'' = (Some r, secs)
      \<and> checksum r = Some ''sum-auth'')"
proof -
  have nsf: "no_store_failure env_down"
    by (simp add: no_store_failure_def env_down_def env_ok_def)
  have dist: "distinct (map src_path [src_guide, src_auth])"
    by (simp add: src_guide_def src_auth_def)
  have fails: "provider_fails env_down ''sk'' ''Run it''"
    by (simp add: provider_fails_def env_down_def env_ok_def)
  have bad: "src_guide \<in> set [src_guide, src_auth]"
    "src_load src_guide = Inr (the_loaded src_guide)"
    "\<not> unchanged False (page_at (db world0) (src_path src_guide)) (the_loaded src_guide)"
    "\<exists>s\<in>set (ld_sections (the_loaded src_guide)).
        provider_fails env_down ''sk'' (replace_newlines (sec_content s))"
    using fails
    by (simp_all add: src_guide_def the_loaded_def unchanged_def page_at_def world0_def
        empty_store_def replace_newlines_def)
  have others: "\<forall>src\<in>set [src_guide, src_auth]. src \<noteq> src_guide \<longrightarrow>
        (\<exists>ld. src_load src = Inr ld
           \<and> (\<forall>s\<in>set (ld_sections ld). provider_ok env_down ''sk'' (replace_newlines (sec_content s))))"
    by (simp add: src_auth_def provider_ok_def env_down_def env_ok_def replace_newlines_def)
  have auth: "src_auth \<in> set [src_guide, src_auth]" "src_auth \<noteq> src_guide"
    "src_load src_auth = Inr (the_loaded src_auth)"
    by (simp_all add: src_guide_def src_auth_def the_loaded_def)
  from one_failing_source_is_contained [OF nsf empty_store_consistent dist bad others,
      where ver = "''run-1''" and dt = 100]
  have "fst (process_sources env_down ''sk'' False ''run-1'' 100 [src_guide, src_auth] world0) = Inr ()"
    and g: "\<exists>r secs.
        entry (db (snd (process_sources env_down ''sk'' False ''run-1'' 100 [src_guide, src_auth] world0)))
          (src_path src_guide) = (Some r, secs)
      \<and> checksum r = None \<and> version r = ''run-1''
      \<and> length secs < length (ld_sections (the_loaded src_guide))
      \<and> map row_data secs = map (sec_data (p_id r)) (take (length secs) (ld_sections (the_loaded src_guide)))"
    and a: "\<forall>src\<in>set [src_guide, src_auth]. src \<noteq> src_guide \<longrightarrow>
          (\<forall>ld. src_load src = Inr ld \<longrightarrow>
            (\<exists>r secs.
               entry (db (snd (process_sources env_down ''sk'' False ''run-1'' 100 [src_guide, src_auth] world0)))
                 (src_path src) = (Some r, secs)
             \<and> checksum r = Some (ld_checksum ld) \<and> version r = ''run-1''
             \<and> (if unchanged False (page_at (db world0) (src_path src)) ld
                 then secs = snd (entry (db world0) (src_path src))
                 else map row_data secs = map (sec_data (p_id r)) (ld_sections ld))))"
    by blast+
  have p: "src_path src_guide = ''guide.md''" "src_path src_auth = ''api/auth.mdx''"
    "ld_checksum (the_loaded src_auth) = ''sum-auth''"
    "length (ld_sections (the_loaded src_guide)) = 2"
    by (simp_all add: src_guide_def src_auth_def the_loaded_def)
  from g have g': "\<exists>r secs.
        entry (db (snd (process_sources env_down ''sk'' False ''run-1'' 100 [src_guide, src_auth] world0)))
          ''guide.md'' = (Some r, secs)
      \<and> checksum r = None \<and> length secs < 2"
    unfolding p by blast
  from a auth have "\<exists>r secs.
        entry (db (snd (process_sources env_down ''sk'' False ''run-1'' 100 [src_guide, src_auth] world0)))
          (src_path src_auth) = (Some r, secs)
      \<and> checksum r = Some (ld_checksum (the_loaded src_auth))"
    by blast
  then have a': "\<exists>r secs.
        entry (db (snd (process_sources env_down ''sk'' False ''run-1'' 100 [src_guide, src_auth] world0)))
          ''api/auth.mdx'' = (Some r, secs)
      \<and> checksum r = Some ''sum-auth''"
    unfolding p .
  from fails \<open>fst (process_sources env_down ''sk'' False ''run-1'' 100 [src_guide, src_auth] world0) = Inr ()\<close>
    g' a'
  show ?thesis by (intro conjI)
qed




text \<open>
  Claim C6.  A source whose checksum matches the stored one, with \<open>shouldRefresh\<close> false,
  whose \<open>parentPath\<close> is not the path of the stored parent: whatever queries are
  rejected, the turn of the loop leaves table \<open>page_section\<close> as it was and calls the
  provider not at all; every row of table \<open>page\<close> keeps its id, its path and its
  checksum, and the rows of other pages are unchanged altogether.  When no query is
  rejected, the row of the page ends with the parent resolved from \<open>parentPath\<close> and with
  the five metadata columns of this run.
\<close>

theorem reparenting_touches_only_metadata:
  assumes load: "src_load src = Inr ld"
    and existing: "page_at (db w) (src_path src) = Some ep"
    and same: "checksum ep = Some (ld_checksum ld)"
    and moved: "map_option path (fst (select_page_by_id (parent_page_id ep) (db w)))
                  \<noteq> src_parentPath src"
  shows "page_section (db (snd (process_source e key False ver dt src w))) = page_section (db w)
     \<and> embedding_calls (snd (process_source e key False ver dt src w)) = embedding_calls w
     \<and> list_all2 (meta_only (p_id ep)) (page (db w))
         (page (db (snd (process_source e key False ver dt src w))))
     \<and> (no_store_failure e \<longrightarrow>
          page_at (db (snd (process_source e key False ver dt src w))) (src_path src) =
            Some (ep\<lparr>parent_page_id :=
                       map_option p_id (fst (select_page_by_path (src_parentPath src) (db w))),
                     ptype := src_type src, source := src_source src, meta := ld_meta ld,
                     version := ver, last_refresh := dt\<rparr>))"
proof -
  have refl: "list_all2 (meta_only (p_id ep)) (page (db w)) (page (db w))"
    by (simp add: list_all2_same meta_only_def)
  show ?thesis
  proof (cases "query_fails e (queries w)")
    case (Some err)
    from process_source_world [OF body_select_fails [OF load Some], of key False ver dt] refl Some
    show ?thesis
      by (auto simp: no_store_failure_def)
  next
    case None
    let ?w1 = "w\<lparr>queries := Suc (queries w), snapshots := snapshots w @ [db w]\<rparr>"
    obtain res w' where m: "refresh_metadata e ver dt src ld ep ?w1 = (res, w')"
      by (cases "refresh_metadata e ver dt src ld ep ?w1")
    with body_dispatch [OF load None, of key False ver dt] existing same
    have b: "process_source_body e key False ver dt src w = (res, w')"
      by (simp add: unchanged_def)
    have "page_at (db ?w1) (src_path src) = Some ep" using existing by simp
    from refresh_metadata_ok [OF _ _ this, of e src ver dt ld] moved m
    have "no_store_failure e \<longrightarrow> page_at (db w') (src_path src) =
            Some (ep\<lparr>parent_page_id :=
                       map_option p_id (fst (select_page_by_path (src_parentPath src) (db w))),
                     ptype := src_type src, source := src_source src, meta := ld_meta ld,
                     version := ver, last_refresh := dt\<rparr>)"
      by simp
    with process_source_world [OF b] refresh_metadata_effect [OF m] show ?thesis by simp
  qed
qed

theorem reparenting_touches_only_metadata_witness:
  "page_at (db world1) (src_path src_auth) = Some auth_row
   \<and> page_section (db (snd (process_source env_again ''sk'' False ''run-2'' 200 src_auth world1)))
       = page_section (db world1)
   \<and> embedding_calls (snd (process_source env_again ''sk'' False ''run-2'' 200 src_auth world1))
       = embedding_calls world1"
proof -
  have load: "src_load src_auth = Inr (the_loaded src_auth)"
    by (simp add: src_auth_def the_loaded_def)
  have existing: "page_at (db world1) (src_path src_auth) = Some auth_row" by code_simp
  have same: "checksum auth_row = Some (ld_checksum (the_loaded src_auth))"
    by (simp add: auth_row_def src_auth_def the_loaded_def)
  have moved: "map_option path (fst (select_page_by_id (parent_page_id auth_row) (db world1)))
      \<noteq> src_parentPath src_auth"
    by (simp add: auth_row_def src_auth_def select_page_by_id_def)
  from reparenting_touches_only_metadata [OF load existing same moved, of env_again "''sk''" "''run-2''" 200]
    existing
  show ?thesis by simp
qed




text \<open>
  Claim C8, as the code has it.  The text sent to the provider is the content of the
  section with every line feed replaced by one space (line 96).  The row that is
  inserted takes \<open>content\<close>, the text of the source as it was loaded, not the text that
  was sent (line 120).  The rows follow the order of the source, one row for each section,
  whatever the slugs are.  The first theorem runs the tree of the example, where the
  first section holds a line feed: the stored content differs from the text sent.
\<close>

theorem stored_content_is_normalized_counterexample:
  "embedding_calls (run env_ok inputs0 world0) = [''Hi you'', ''Run it'', ''Use a key'']
   \<and> map content (page_section (db (run env_ok inputs0 world0)))
       = [[CHR ''H'', CHR ''i'', CHR 0x0A, CHR ''y'', CHR ''o'', CHR ''u''], ''Run it'', ''Use a key'']
   \<and> map content (page_section (db (run env_ok inputs0 world0)))
       \<noteq> embedding_calls (run env_ok inputs0 world0)"
proof -
  have sent: "embedding_calls (run env_ok inputs0 world0) = [''Hi you'', ''Run it'', ''Use a key'']"
    by code_simp
  have kept: "map content (page_section (db (run env_ok inputs0 world0)))
       = [[CHR ''H'', CHR ''i'', CHR 0x0A, CHR ''y'', CHR ''o'', CHR ''u''], ''Run it'', ''Use a key'']"
    by code_simp
  show ?thesis unfolding sent kept by simp
qed

text \<open>
  Claim C8, amended: after a pass of lines 81 to 128 that succeeded, the provider has
  received the normalized contents of the sections in source order, and the new rows
  carry, in the same order, the slug, the heading and the unchanged content of each
  section, with the vector and the token count of an answer of the provider to the
  normalized content.
\<close>

theorem sections_embedded_in_order:
  assumes sp: "store_page e key ver dt src ld par w = (Inr (), w')"
  shows "\<exists>rows. page_section (db w') = page_section (db w) @ rows
      \<and> map content rows = map sec_content (ld_sections ld)
      \<and> map slug rows = map sec_slug (ld_sections ld)
      \<and> map heading rows = map sec_heading (ld_sections ld)
      \<and> (\<forall>r\<in>set rows. from_provider e key r)
      \<and> embedding_calls w' =
          embedding_calls w @ map (\<lambda>s. replace_newlines (sec_content s)) (ld_sections ld)"
proof -
  from store_page_effect [OF sp] obtain rows m where eff:
    "page_section (db w') = page_section (db w) @ rows"
    "map row_data rows = map (sec_data (fst (upserted ver dt src ld par (db w))))
        (take (length rows) (ld_sections ld))"
    "\<forall>r\<in>set rows. from_provider e key r"
    "embedding_calls w' = embedding_calls w @
        map (\<lambda>s. replace_newlines (sec_content s)) (take m (ld_sections ld))"
    "length rows = length (ld_sections ld)" "m = length (ld_sections ld)"
    by auto
  from eff(2,5) have "map row_data rows
      = map (sec_data (fst (upserted ver dt src ld par (db w)))) (ld_sections ld)" by simp
  from map_row_data_fields(1,2,3) [OF this] eff show ?thesis
    by (intro exI [of _ rows]) simp
qed

theorem sections_embedded_in_order_witness:
  "\<exists>rows. page_section (db (snd guide_stored)) = page_section (db world0) @ rows
      \<and> map content rows = [[CHR ''H'', CHR ''i'', CHR 0x0A, CHR ''y'', CHR ''o'', CHR ''u''], ''Run it'']
      \<and> embedding_calls (snd guide_stored) = embedding_calls world0 @ [''Hi you'', ''Run it'']"
proof -
  have ok: "fst guide_stored = Inr ()" by code_simp
  then have h: "store_page env_ok ''sk'' ''run-1'' 100 src_guide (the_loaded src_guide) None world0
      = (Inr (), snd guide_stored)"
    by (simp add: guide_stored_def prod_eq_iff)
  from sections_embedded_in_order [OF h] show ?thesis
    by (auto simp: src_guide_def the_loaded_def replace_newlines_def)
qed

text \<open>
  Claim C9.  An error that leaves \<open>generateEmbeddings\<close> is handed to \<open>core.setFailed\<close>
  with its message (line 157 asks for an instance of \<open>Error\<close>, which the failures of the
  store client and of the walker are).  Such an error comes from \<open>client.connect\<close>, from
  the walker, from the final \<open>DELETE\<close> or from \<open>client.end\<close>, never from the loop over
  the sources: the loop does not throw and leaves the failure signal alone, and a run
  whose \<open>generateEmbeddings\<close> returns has the failure signal it started with.
\<close>

theorem uncaught_error_is_reported:
  "(\<forall>err w'.
       generateEmbeddings e
         \<lparr>shouldRefresh = None,
          postgresConnectionString = getInput ''postgres-connection-string'',
          openaiKey = getInput ''openai-key'',
          docsRootPath = getInput ''docs-root-path''\<rparr> w = (Inl err, w')
       \<longrightarrow> (is_Error err \<longrightarrow> failed (run e getInput w) = Some (message err))
         \<and> (connect e (getInput ''postgres-connection-string'') = Some err
            \<or> walk e (getInput ''docs-root-path'') = Inl err
            \<or> (query_fails e (queries w' - 1) = Some err \<and> console w' \<noteq> []
                 \<and> last (console w') = RemovingOldPages)
            \<or> end_fails e = Some err))
   \<and> (\<forall>w'.
       generateEmbeddings e
         \<lparr>shouldRefresh = None,
          postgresConnectionString = getInput ''postgres-connection-string'',
          openaiKey = getInput ''openai-key'',
          docsRootPath = getInput ''docs-root-path''\<rparr> w = (Inr (), w')
       \<longrightarrow> run e getInput w = w' \<and> failed (run e getInput w) = failed w)
   \<and> fst (process_sources e key sr ver dt srcs w) = Inr ()
   \<and> failed (snd (process_sources e key sr ver dt srcs w)) = failed w"
proof -
  let ?props = "\<lparr>shouldRefresh = None,
          postgresConnectionString = getInput ''postgres-connection-string'',
          openaiKey = getInput ''openai-key'',
          docsRootPath = getInput ''docs-root-path''\<rparr>"
  have a: "(is_Error err \<longrightarrow> failed (run e getInput w) = Some (message err))
         \<and> (connect e (getInput ''postgres-connection-string'') = Some err
            \<or> walk e (getInput ''docs-root-path'') = Inl err
            \<or> (query_fails e (queries w' - 1) = Some err \<and> console w' \<noteq> []
                 \<and> last (console w') = RemovingOldPages)
            \<or> end_fails e = Some err)"
    if g: "generateEmbeddings e ?props w = (Inl err, w')" for err w'
    using generateEmbeddings_cases [OF g] g by (simp add: run_def)
  have b: "run e getInput w = w' \<and> failed (run e getInput w) = failed w"
    if g: "generateEmbeddings e ?props w = (Inr (), w')" for w'
    using generateEmbeddings_cases [OF g] g by (simp add: run_def)
  from a b process_sources_keeps [of e key sr ver dt srcs w] show ?thesis by blast
qed

theorem uncaught_error_is_reported_witness:
  "failed (run env_refused inputs0 world0) = Some ''ECONNREFUSED''
   \<and> failed (run env_down inputs0 world0) = None"
proof -
  have g: "generateEmbeddings env_refused
         \<lparr>shouldRefresh = None,
          postgresConnectionString = inputs0 ''postgres-connection-string'',
          openaiKey = inputs0 ''openai-key'',
          docsRootPath = inputs0 ''docs-root-path''\<rparr> world0
       = (Inl (Thrown True ''ECONNREFUSED''), world0)"
    by (simp add: generateEmbeddings_def env_refused_def env_ok_def client_connect_def await_def)
  have quiet: "failed (run env_down inputs0 world0) = None" by code_simp
  from uncaught_error_is_reported [of env_refused inputs0 world0] g quiet
  show ?thesis by auto
qed

text \<open>
  Claim C10.  \<open>run\<close> reads three inputs and passes no \<open>shouldRefresh\<close>, so the default
  of line 14 applies: every run is the run with \<open>shouldRefresh = false\<close>, and two
  configurations that agree on the three inputs give the same run, whatever else they
  hold.
\<close>

theorem run_never_forces_refresh:
  "run e getInput w =
     (case generateEmbeddings e
             \<lparr>shouldRefresh = Some False,
              postgresConnectionString = getInput ''postgres-connection-string'',
              openaiKey = getInput ''openai-key'',
              docsRootPath = getInput ''docs-root-path''\<rparr> w of
        (Inl error, w') \<Rightarrow> if is_Error error then w'\<lparr>failed := Some (message error)\<rparr> else w'
      | (Inr _, w') \<Rightarrow> w')
   \<and> (\<forall>g. g ''postgres-connection-string'' = getInput ''postgres-connection-string''
          \<and> g ''openai-key'' = getInput ''openai-key''
          \<and> g ''docs-root-path'' = getInput ''docs-root-path''
        \<longrightarrow> run e g w = run e getInput w)"
  by (simp add: run_def generateEmbeddings_def)

theorem run_never_forces_refresh_witness:
  "inputs_refresh ''should-refresh'' = ''true''
   \<and> run env_ok inputs_refresh world0 = run env_ok inputs0 world0"
proof -
  have "inputs_refresh ''postgres-connection-string'' = inputs0 ''postgres-connection-string''
      \<and> inputs_refresh ''openai-key'' = inputs0 ''openai-key''
      \<and> inputs_refresh ''docs-root-path'' = inputs0 ''docs-root-path''"
    by (simp add: inputs_refresh_def)
  with run_never_forces_refresh [of env_ok inputs0 world0] show ?thesis
    by (simp add: inputs_refresh_def)
qed

end
